theory Spec2Isabelle
  imports Main "HOL-Library.Sublist"

begin

unbundle bit_operations_syntax

section \<open>Strings, decimal text and Python's \<open>str\<close> and \<open>int\<close>\<close>

text \<open>
  The generator \<open>nuklear-cffi.py\<close> works on Python 2 byte strings. A text is a
  \<^typ>\<open>string\<close>, Python's unbounded integers are \<^typ>\<open>int\<close>.
\<close>

definition is_digit :: "char \<Rightarrow> bool" where
  "is_digit c = (c \<in> set ''0123456789'')"

definition digit_val :: "char \<Rightarrow> nat" where
  "digit_val c = of_char c - 48"

definition digit_chr :: "nat \<Rightarrow> char" where
  "digit_chr d = ''0123456789'' ! d"

text \<open>\<open>int(s)\<close> on a string of decimal digits (\<open>match.group(1)\<close> of the shift pattern).\<close>

definition nat_of_dec :: "string \<Rightarrow> nat" where
  "nat_of_dec ds = foldl (\<lambda>a c. 10 * a + digit_val c) 0 ds"

fun dec_nat :: "nat \<Rightarrow> string" where
  "dec_nat n = (if n < 10 then [digit_chr n] else dec_nat (n div 10) @ [digit_chr (n mod 10)])"

declare dec_nat.simps [simp del]

text \<open>\<open>str(i)\<close> for a Python 2 \<open>int\<close> or \<open>long\<close>: decimal, with a minus sign when negative.\<close>

definition str_int :: "int \<Rightarrow> string" where
  "str_int i = (if i < 0 then CHR ''-'' # dec_nat (nat (- i)) else dec_nat (nat i))"

fun strip_prefix :: "string \<Rightarrow> string \<Rightarrow> string option" where
  "strip_prefix [] s = Some s"
| "strip_prefix (p # ps) [] = None"
| "strip_prefix (p # ps) (c # cs) = (if p = c then strip_prefix ps cs else None)"

section \<open>Shift folding\<close>

text \<open>
  \<^verbatim>\<open>shift_expr = "\\(1 << \\(([0-9]+)\\)\\)"\<close>, matched at the start of a text.
  The greedy \<open>[0-9]+\<close> takes the whole run of digits; giving a digit back never
  helps, because the next character of the pattern is a closing parenthesis.
  The result is \<open>group(1)\<close> and the text after the match.
\<close>

definition match_shift :: "string \<Rightarrow> (string \<times> string) option" where
  "match_shift s =
     (case strip_prefix ''(1 << ('' s of
        None \<Rightarrow> None
      | Some r \<Rightarrow>
          let ds = takeWhile is_digit r in
          if ds = [] then None
          else (case strip_prefix ''))'' (dropWhile is_digit r) of
                  None \<Rightarrow> None
                | Some rest \<Rightarrow> Some (ds, rest)))"

text \<open>\<^verbatim>\<open>def evaluate_shift(match): return str(1 << int(match.group(1)))\<close>\<close>

definition evaluate_shift :: "string \<Rightarrow> string" where
  "evaluate_shift g1 = str_int (push_bit (nat_of_dec g1) 1)"

text \<open>
  \<^verbatim>\<open>preprocessed_text = re.sub(shift_expr, evaluate_shift, preprocessed_text)\<close>:
  scan from the left; where the pattern matches, emit the replacement and go on after
  the match, otherwise copy one character.
\<close>

function shift_sub :: "string \<Rightarrow> string" where
  "shift_sub [] = []"
| "shift_sub (c # cs) =
     (case match_shift (c # cs) of
        Some (g1, rest) \<Rightarrow> evaluate_shift g1 @ shift_sub rest
      | None \<Rightarrow> c # shift_sub cs)"
  by pat_completeness auto

section \<open>Bitwise-OR folding\<close>

subsection \<open>Errors and results\<close>

text \<open>
  The exceptions of this part of the program. \<open>CannotFind name\<close> is
  \<^verbatim>\<open>Exception("Cannot find definition for value '%s'" % value_name)\<close>,
  \<open>ValueError s\<close> is raised by \<open>int(s, 0)\<close>, \<open>TypeError\<close> by \<open>reduce\<close> on an
  empty sequence, \<open>RegexError\<close> stands for whatever the \<open>re\<close> module raises on a
  pattern that is not a plain text.

  A result is \<open>None\<close> when the recursion of \<open>lookup_value\<close> and \<open>evaluate_or\<close> does
  not come back within the given depth, \<open>Some (Inl e)\<close> when an exception is
  raised, \<open>Some (Inr v)\<close> when \<open>v\<close> is returned. (The program itself sets no
  bound; a recursion without end stops only at the recursion limit of the
  interpreter.)
\<close>

datatype error = CannotFind string | ValueError string | TypeError | RegexError string

type_synonym 'a result = "(error + 'a) option"

subsection \<open>The patterns \<open>val_expr\<close> and \<open>or_expr\<close>\<close>

definition is_ident :: "char \<Rightarrow> bool" where
  "is_ident c =
     (c \<in> set ''abcdefghijklmnopqrstuvwxyzABCDEFGHIJKLMNOPQRSTUVWXYZ0123456789_'')"

definition is_blank :: "char \<Rightarrow> bool" where
  "is_blank c = (c = CHR '' '')"

text \<open>
  \<^verbatim>\<open>val_expr = "(nk|NK)_[a-zA-Z0-9_]+"\<close> at the start of a text: the matched text
  and the text after it. The greedy \<open>+\<close> takes the whole run of identifier
  characters.
\<close>

definition match_val :: "string \<Rightarrow> (string \<times> string) option" where
  "match_val s =
     (case (case strip_prefix ''nk_'' s of
              Some r \<Rightarrow> Some (''nk_'', r)
            | None \<Rightarrow> (case strip_prefix ''NK_'' s of
                         Some r \<Rightarrow> Some (''NK_'', r)
                       | None \<Rightarrow> None)) of
        None \<Rightarrow> None
      | Some (pfx, r) \<Rightarrow>
          if takeWhile is_ident r = [] then None
          else Some (pfx @ takeWhile is_ident r, dropWhile is_ident r))"

text \<open>One round of the repeated group \<^verbatim>\<open>( *\\| *%s)\<close>.\<close>

definition match_or_group :: "string \<Rightarrow> (string \<times> string) option" where
  "match_or_group s =
     (case dropWhile is_blank s of
        [] \<Rightarrow> None
      | c # r \<Rightarrow>
          if c \<noteq> CHR ''|'' then None
          else (case match_val (dropWhile is_blank r) of
                  None \<Rightarrow> None
                | Some (v, rest) \<Rightarrow>
                    Some (takeWhile is_blank s @ [c] @ takeWhile is_blank r @ v, rest)))"

text \<open>
  The greedy repetition of the group: as many rounds as match. A round that fails
  ends the repetition; no shorter choice inside an earlier round lets a later one
  match, since a shortened identifier or run of blanks is followed by a character
  that the next pattern item refuses.
\<close>

function match_or_groups :: "string \<Rightarrow> string \<times> string" where
  "match_or_groups s =
     (case match_or_group s of
        None \<Rightarrow> ([], s)
      | Some (g, rest) \<Rightarrow>
          (case match_or_groups rest of (gs, rest') \<Rightarrow> (g @ gs, rest')))"
  by pat_completeness auto

text \<open>
  \<^verbatim>\<open>or_expr = "%s( *\\| *%s)+" % (val_expr, val_expr)\<close> at the start of a text:
  \<open>group(0)\<close> and the text after the match. At least one round of the group is
  required.
\<close>

definition match_or :: "string \<Rightarrow> (string \<times> string) option" where
  "match_or s =
     (case match_val s of
        None \<Rightarrow> None
      | Some (v, r) \<Rightarrow>
          (case match_or_group r of
             None \<Rightarrow> None
           | Some (g, r1) \<Rightarrow>
               (case match_or_groups r1 of (gs, r2) \<Rightarrow> Some (v @ g @ gs, r2))))"

subsection \<open>Searching the text for an assignment\<close>

text \<open>
  \<^verbatim>\<open>re.search("%s *= *([^\n,]*)" % value_name, preprocessed_text)\<close>.
  The name is pasted into the pattern unescaped. A name without any of the
  characters \<^verbatim>\<open>. \ [ { ( ) * + ? ^ $ |\<close> is a pattern that matches exactly
  itself; \<open>match_assign\<close> is that pattern at the start of a text and gives
  \<open>group(1)\<close>: after the name, blanks, \<open>=\<close> and blanks, everything up to the next
  newline or comma.
\<close>

definition is_special :: "char \<Rightarrow> bool" where
  "is_special c = (c \<in> set (CHR 0x5C # ''.[{()*+?^$|''))"

definition plain_name :: "string \<Rightarrow> bool" where
  "plain_name name = (\<forall>c\<in>set name. \<not> is_special c)"

definition is_value_char :: "char \<Rightarrow> bool" where
  "is_value_char c = (c \<noteq> CHR ''\<newline>'' \<and> c \<noteq> CHR '','')"

definition match_assign :: "string \<Rightarrow> string \<Rightarrow> string option" where
  "match_assign value_name s =
     (case strip_prefix value_name s of
        None \<Rightarrow> None
      | Some r \<Rightarrow>
          (case dropWhile is_blank r of
             [] \<Rightarrow> None
           | c # r' \<Rightarrow>
               if c \<noteq> CHR ''='' then None
               else Some (takeWhile is_value_char (dropWhile is_blank r'))))"

text \<open>\<open>re.search\<close>: the first position of the text, from the left, where the pattern matches.\<close>

fun search_assign :: "string \<Rightarrow> string \<Rightarrow> string option" where
  "search_assign value_name [] = match_assign value_name []"
| "search_assign value_name (c # cs) =
     (case match_assign value_name (c # cs) of
        Some v \<Rightarrow> Some v
      | None \<Rightarrow> search_assign value_name cs)"

text \<open>
  A name with one of the special characters is a regular expression of its own.
  What \<open>re.search\<close> and \<open>group(1)\<close> give for it is left open: it is the parameter
  \<open>rx\<close> of the model, which either raises or returns the value found, if any.
\<close>

type_synonym regex_search = "string \<Rightarrow> string \<Rightarrow> error + string option"

definition find_assignment :: "regex_search \<Rightarrow> string \<Rightarrow> string \<Rightarrow> error + string option" where
  "find_assignment rx value_name preprocessed_text =
     (if plain_name value_name then Inr (search_assign value_name preprocessed_text)
      else rx value_name preprocessed_text)"

subsection \<open>\<open>int(value, 0)\<close>\<close>

text \<open>
  Python 2's \<open>int\<close> with base 0: white space around the literal, a sign (white
  space may follow it), then \<open>0x\<close>, \<open>0o\<close>, \<open>0b\<close> or a leading \<open>0\<close> (octal) select
  the base, otherwise decimal. Anything else is a \<open>ValueError\<close>. Integers are
  unbounded (\<open>int\<close> becomes \<open>long\<close>).
\<close>

definition is_space :: "char \<Rightarrow> bool" where
  "is_space c = (c \<in> set [CHR '' '', CHR 0x09, CHR 0x0A, CHR 0x0B, CHR 0x0C, CHR 0x0D])"

definition digit_value :: "char \<Rightarrow> nat" where
  "digit_value c =
     (if is_digit c then of_char c - 48
      else if c \<in> set ''abcdefghijklmnopqrstuvwxyz'' then of_char c - 87
      else if c \<in> set ''ABCDEFGHIJKLMNOPQRSTUVWXYZ'' then of_char c - 55
      else 37)"

definition nat_of_digits :: "nat \<Rightarrow> string \<Rightarrow> nat" where
  "nat_of_digits base ds = foldl (\<lambda>a c. base * a + digit_value c) 0 ds"

text \<open>The base, whether a digit has been read already (the leading \<open>0\<close>), and the text of the digits.\<close>

fun detect_base :: "string \<Rightarrow> (nat \<times> bool \<times> string) option" where
  "detect_base (c # d # r) =
     (if c = CHR ''0'' then
        (if d = CHR ''x'' \<or> d = CHR ''X'' then
           (case r of [] \<Rightarrow> None | e # _ \<Rightarrow> if digit_value e < 16 then Some (16, False, r) else None)
         else if d = CHR ''o'' \<or> d = CHR ''O'' then
           (case r of [] \<Rightarrow> None | e # _ \<Rightarrow> if digit_value e < 8 then Some (8, False, r) else None)
         else if d = CHR ''b'' \<or> d = CHR ''B'' then
           (case r of [] \<Rightarrow> None | e # _ \<Rightarrow> if digit_value e < 2 then Some (2, False, r) else None)
         else Some (8, True, d # r))
      else Some (10, False, c # d # r))"
| "detect_base [c] = (if c = CHR ''0'' then Some (8, True, []) else Some (10, False, [c]))"
| "detect_base [] = Some (10, False, [])"

definition int_base0 :: "string \<Rightarrow> error + int" where
  "int_base0 s =
     (let s1 = dropWhile is_space s;
          neg = (s1 \<noteq> [] \<and> hd s1 = CHR ''-'');
          signed = (s1 \<noteq> [] \<and> (hd s1 = CHR ''-'' \<or> hd s1 = CHR ''+''));
          s2 = dropWhile is_space (if signed then tl s1 else s1)
      in if CHR 0x00 \<in> set s then Inl (ValueError s)
         else (case detect_base s2 of
                 None \<Rightarrow> Inl (ValueError s)
               | Some (base, seen, s3) \<Rightarrow>
                   let ds = takeWhile (\<lambda>c. digit_value c < base) s3;
                       after = dropWhile (\<lambda>c. digit_value c < base) s3
                   in if (ds = [] \<and> \<not> seen) \<or> dropWhile is_space after \<noteq> []
                      then Inl (ValueError s)
                      else Inr ((if neg then - 1 else 1) * int (nat_of_digits base ds))))"

subsection \<open>\<open>lookup_value\<close> and \<open>evaluate_or\<close>\<close>

text \<open>\<open>expression_text.split("|")\<close> and \<open>x.strip()\<close>.\<close>

fun split_bar :: "string \<Rightarrow> string list" where
  "split_bar [] = [] # []"
| "split_bar (c # cs) =
     (if c = CHR ''|'' then [] # split_bar cs
      else (case split_bar cs of [] \<Rightarrow> [c] # [] | x # xs \<Rightarrow> (c # x) # xs))"

definition strip :: "string \<Rightarrow> string" where
  "strip s = rev (dropWhile is_space (rev (dropWhile is_space s)))"

text \<open>\<open>map\<close> with a function that may raise: left to right, the first exception ends it.\<close>

fun map_values :: "(string \<Rightarrow> int result) \<Rightarrow> string list \<Rightarrow> int list result" where
  "map_values f [] = Some (Inr [])"
| "map_values f (x # xs) =
     (case f x of
        None \<Rightarrow> None
      | Some (Inl e) \<Rightarrow> Some (Inl e)
      | Some (Inr v) \<Rightarrow>
          (case map_values f xs of
             None \<Rightarrow> None
           | Some (Inl e) \<Rightarrow> Some (Inl e)
           | Some (Inr vs) \<Rightarrow> Some (Inr (v # vs))))"

text \<open>\<^verbatim>\<open>reduce(lambda x,y: x|y, values)\<close>\<close>

fun reduce_or :: "int list \<Rightarrow> error + int" where
  "reduce_or [] = Inl TypeError"
| "reduce_or (v # vs) = Inr (foldl (\<lambda>x y. x OR y) v vs)"

text \<open>
  \<^verbatim>\<open>
  75  def evaluate_or(expression_text):
  76      values = map(lambda x: lookup_value(x.strip()), expression_text.split("|"))
  77      return reduce(lambda x,y: x|y, values)
  \<close>
  with the function \<open>lookup_value\<close> it calls as an argument.
\<close>

definition evaluate_or_with :: "(string \<Rightarrow> int result) \<Rightarrow> string \<Rightarrow> int result" where
  "evaluate_or_with lookup expression_text =
     (case map_values lookup (map strip (split_bar expression_text)) of
        None \<Rightarrow> None
      | Some (Inl e) \<Rightarrow> Some (Inl e)
      | Some (Inr values) \<Rightarrow> Some (reduce_or values))"

text \<open>
  \<^verbatim>\<open>
  63  def lookup_value(value_name):
  64      ret = 0
  65      assignment = re.search("%s *= *([^\n,]*)" % value_name, preprocessed_text)
  66      if assignment:
  67          value = assignment.group(1)
  68          if re.match(or_expr, value) or re.match(val_expr, value):
  69              ret = evaluate_or(value)
  70          else:
  71              ret = int(value, 0)
  72      else:
  73          raise Exception("Cannot find definition for value '%s'" % value_name)
  74      return ret
  \<close>
  \<open>preprocessed_text\<close> is the variable of the enclosing function the closure reads.
  The first argument bounds the depth of the recursion through \<open>evaluate_or\<close>.
\<close>

primrec lookup_value :: "nat \<Rightarrow> regex_search \<Rightarrow> string \<Rightarrow> string \<Rightarrow> int result" where
  "lookup_value 0 rx preprocessed_text value_name = None"
| "lookup_value (Suc n) rx preprocessed_text value_name =
     (case find_assignment rx value_name preprocessed_text of
        Inl e \<Rightarrow> Some (Inl e)
      | Inr None \<Rightarrow> Some (Inl (CannotFind value_name))
      | Inr (Some value) \<Rightarrow>
          if match_or value \<noteq> None \<or> match_val value \<noteq> None
          then evaluate_or_with (lookup_value n rx preprocessed_text) value
          else Some (int_base0 value))"

definition evaluate_or :: "nat \<Rightarrow> regex_search \<Rightarrow> string \<Rightarrow> string \<Rightarrow> int result" where
  "evaluate_or n rx preprocessed_text expression_text =
     evaluate_or_with (lookup_value n rx preprocessed_text) expression_text"

text \<open>\<^verbatim>\<open>def replace_or(match): return str(evaluate_or(match.group(0)))\<close>\<close>

definition replace_or :: "nat \<Rightarrow> regex_search \<Rightarrow> string \<Rightarrow> string \<Rightarrow> string result" where
  "replace_or n rx preprocessed_text g0 =
     (case evaluate_or n rx preprocessed_text g0 of
        None \<Rightarrow> None
      | Some (Inl e) \<Rightarrow> Some (Inl e)
      | Some (Inr v) \<Rightarrow> Some (Inr (str_int v)))"

text \<open>
  \<^verbatim>\<open>re.sub(or_expr, replace_or, preprocessed_text)\<close>: the scan over the subject, the
  third argument of \<open>re.sub\<close>. The callback reads the variable \<open>preprocessed_text\<close>,
  which keeps its value until \<open>re.sub\<close> has returned and the result is assigned.
\<close>

function or_sub :: "nat \<Rightarrow> regex_search \<Rightarrow> string \<Rightarrow> string \<Rightarrow> string result" where
  "or_sub n rx preprocessed_text [] = Some (Inr [])"
| "or_sub n rx preprocessed_text (c # cs) =
     (case match_or (c # cs) of
        Some (g0, rest) \<Rightarrow>
          (case replace_or n rx preprocessed_text g0 of
             None \<Rightarrow> None
           | Some (Inl e) \<Rightarrow> Some (Inl e)
           | Some (Inr repl) \<Rightarrow>
               (case or_sub n rx preprocessed_text rest of
                  None \<Rightarrow> None
                | Some (Inl e) \<Rightarrow> Some (Inl e)
                | Some (Inr out) \<Rightarrow> Some (Inr (repl @ out))))
      | None \<Rightarrow>
          (case or_sub n rx preprocessed_text cs of
             None \<Rightarrow> None
           | Some (Inl e) \<Rightarrow> Some (Inl e)
           | Some (Inr out) \<Rightarrow> Some (Inr (c # out))))"
  by pat_completeness auto

text \<open>\<^verbatim>\<open>preprocessed_text = re.sub(or_expr, replace_or, preprocessed_text)\<close>\<close>

definition or_pass :: "nat \<Rightarrow> regex_search \<Rightarrow> string \<Rightarrow> string result" where
  "or_pass n rx preprocessed_text = or_sub n rx preprocessed_text preprocessed_text"

section \<open>Structural rewriting\<close>

subsection \<open>Stubbing \<open>struct nk_table\<close>\<close>

text \<open>
  \<^verbatim>\<open>"(struct nk_table {.*?;)[^;]*?sizeof\\(.*?};"\<close> with \<open>re.DOTALL\<close>, read from the
  right. Each lazy item first tries what follows it and takes one more character
  only when that fails, as the backtracking matcher does.

  \<open>find_close\<close> is \<^verbatim>\<open>.*?};\<close>: the text after the first \<open>};\<close>.
\<close>

fun find_close :: "string \<Rightarrow> string option" where
  "find_close [] = None"
| "find_close (c # cs) =
     (case strip_prefix ''};'' (c # cs) of
        Some rest \<Rightarrow> Some rest
      | None \<Rightarrow> find_close cs)"

text \<open>\<open>find_sizeof\<close> is \<^verbatim>\<open>[^;]*?sizeof\\(.*?};\<close>.\<close>

fun find_sizeof :: "string \<Rightarrow> string option" where
  "find_sizeof [] = None"
| "find_sizeof (c # cs) =
     (case (case strip_prefix ''sizeof('' (c # cs) of
              Some r \<Rightarrow> find_close r
            | None \<Rightarrow> None) of
        Some rest \<Rightarrow> Some rest
      | None \<Rightarrow> if c = CHR '';'' then None else find_sizeof cs)"

text \<open>
  \<open>find_member\<close> is \<^verbatim>\<open>.*?;)[^;]*?sizeof\\(.*?};\<close>: the text matched by \<^verbatim>\<open>.*?;\<close>, which
  ends \<open>group(1)\<close>, and the text after the whole match.
\<close>

fun find_member :: "string \<Rightarrow> (string \<times> string) option" where
  "find_member [] = None"
| "find_member (c # cs) =
     (case (if c = CHR '';'' then find_sizeof cs else None) of
        Some rest \<Rightarrow> Some ([c], rest)
      | None \<Rightarrow>
          (case find_member cs of
             Some (g, rest) \<Rightarrow> Some (c # g, rest)
           | None \<Rightarrow> None))"

text \<open>The whole pattern at the start of a text: \<open>group(1)\<close> and the text after the match.\<close>

definition match_table :: "string \<Rightarrow> (string \<times> string) option" where
  "match_table s =
     (case strip_prefix ''struct nk_table {'' s of
        None \<Rightarrow> None
      | Some r \<Rightarrow>
          (case find_member r of
             None \<Rightarrow> None
           | Some (g, rest) \<Rightarrow> Some (''struct nk_table {'' @ g, rest)))"

text \<open>
  \<^verbatim>\<open>
  preprocessed_text = re.sub(
      "(struct nk_table {.*?;)[^;]*?sizeof\\(.*?};",
      lambda x: x.group(1) + "\n    ...;\n};",
      preprocessed_text, count=0, flags=re.MULTILINE|re.DOTALL)
  \<close>
\<close>

definition opaque_tail :: string where
  "opaque_tail = ''\<newline>    ...;\<newline>};''"

function stub_sub :: "string \<Rightarrow> string" where
  "stub_sub [] = []"
| "stub_sub (c # cs) =
     (case match_table (c # cs) of
        Some (g1, rest) \<Rightarrow> g1 @ opaque_tail @ stub_sub rest
      | None \<Rightarrow> c # stub_sub cs)"
  by pat_completeness auto

text \<open>\<open>re.search\<close> of the pattern: does it match anywhere in the text?\<close>

fun table_pattern_occurs :: "string \<Rightarrow> bool" where
  "table_pattern_occurs [] = False"
| "table_pattern_occurs (c # cs) = (match_table (c # cs) \<noteq> None \<or> table_pattern_occurs cs)"

subsection \<open>Removing the \<open>nk_draw_list_clear\<close> declaration\<close>

text \<open>
  \<^verbatim>\<open>
  preprocessed_text = re.sub(
      "extern void nk_draw_list_clear\\(struct nk_draw_list \\*list\\);",
      "", preprocessed_text)
  \<close>
  The pattern matches exactly the text \<open>draw_list_clear_decl\<close>; with no \<open>count\<close>
  argument every match is replaced.
\<close>

definition draw_list_clear_decl :: string where
  "draw_list_clear_decl = ''extern void nk_draw_list_clear(struct nk_draw_list *list);''"

function remove_decl :: "string \<Rightarrow> string" where
  "remove_decl [] = []"
| "remove_decl (c # cs) =
     (case strip_prefix draw_list_clear_decl (c # cs) of
        Some rest \<Rightarrow> remove_decl rest
      | None \<Rightarrow> c # remove_decl cs)"
  by pat_completeness auto

text \<open>The number of places of a text where a given text starts.\<close>

fun occurrences :: "string \<Rightarrow> string \<Rightarrow> nat" where
  "occurrences p [] = 0"
| "occurrences p (c # cs) =
     (if strip_prefix p (c # cs) \<noteq> None then 1 else 0) + occurrences p cs"

section \<open>The pipeline of \<open>build_nuklear_defs\<close>\<close>

text \<open>
  The text written to the definitions file, from the output of the C preprocessor
  (an external program: its output is the argument \<open>preprocessed_text\<close>) and
  \<open>extra_cdef\<close>. Each statement assigns the variable \<open>preprocessed_text\<close> anew.
\<close>

definition build_nuklear_defs :: "nat \<Rightarrow> regex_search \<Rightarrow> string \<Rightarrow> string \<Rightarrow> string result" where
  "build_nuklear_defs n rx preprocessed_text extra_cdef =
     (let preprocessed_text1 = shift_sub preprocessed_text in
      case or_pass n rx preprocessed_text1 of
        None \<Rightarrow> None
      | Some (Inl e) \<Rightarrow> Some (Inl e)
      | Some (Inr preprocessed_text2) \<Rightarrow>
          Some (Inr (remove_decl (stub_sub preprocessed_text2) @ extra_cdef)))"

section \<open>Command line\<close>

text \<open>
  The loop over \<open>sys.argv\<close> in the main program. It ends either in \<open>sys.exit\<close>,
  with what has been printed, or with the header file name the pipeline then reads.
\<close>

datatype outcome = Exit int string | Run string

definition usage_doc :: string where
  "usage_doc = ''\<newline>nuklear-cffi.py\<newline>\<newline>Semi-automatically generates a Python binding for the 'nuklear' GUI library,\<newline>which is a simple header-only C library with no dependencies.  The binding\<newline>makes use of the 'cffi' python package; to use it see the documentation for\<newline>'cffi'.\<newline>\<newline>Usage: ./nuklear-cffi.py [--header <filename>]\<newline>''"

function parse_args :: "nat \<Rightarrow> string list \<Rightarrow> string \<Rightarrow> outcome" where
  "parse_args i argv nuklear_header_filename =
     (if i < length argv then
        (let arg = argv ! i in
         if arg = ''-h'' \<or> arg = ''--help'' then Exit 0 usage_doc
         else if arg = ''--header'' then
           (if i + 1 = length argv then Exit 1 ''--header <filename>''
            else parse_args (i + 1 + 1) argv (argv ! (i + 1)))
         else parse_args (i + 1) argv nuklear_header_filename)
      else Run nuklear_header_filename)"
  by pat_completeness auto

definition main_args :: "string list \<Rightarrow> outcome" where
  "main_args argv = parse_args 1 argv ''nuklear/nuklear.h''"

section \<open>Notions used to state the properties\<close>

text \<open>
  A text is \<open>shift_isolated\<close> when no occurrence of the shift pattern stands directly
  after an opening parenthesis or a decimal digit.
\<close>

fun shift_isolated :: "string \<Rightarrow> bool" where
  "shift_isolated [] = True"
| "shift_isolated (x # ys) =
     ((match_shift ys = None \<or> (x \<noteq> CHR ''('' \<and> \<not> is_digit x)) \<and> shift_isolated ys)"

text \<open>
  A regex engine that refuses every pattern. It stands for the parameter \<open>rx\<close>
  where the model is run on names that are plain texts, which never reach it.
\<close>

definition no_regex :: regex_search where
  "no_regex value_name preprocessed_text = Inl (RegexError value_name)"

text \<open>The OR chains that the scan of \<open>or_sub\<close> folds: \<open>group(0)\<close> of every match, in order.\<close>

function or_chains :: "string \<Rightarrow> string list" where
  "or_chains [] = []"
| "or_chains (c # cs) =
     (case match_or (c # cs) of
        Some (g0, rest) \<Rightarrow> g0 # or_chains rest
      | None \<Rightarrow> or_chains cs)"
  by pat_completeness auto

text \<open>
  The symbols that the assignment found for a symbol refers to, and the
  symbol-definition graph of a text: the pairs of a referenced symbol and the
  symbol whose assignment refers to it.
\<close>

definition referenced :: "regex_search \<Rightarrow> string \<Rightarrow> string \<Rightarrow> string list" where
  "referenced rx preprocessed_text value_name =
     (case find_assignment rx value_name preprocessed_text of
        Inr (Some value) \<Rightarrow>
          if match_or value \<noteq> None \<or> match_val value \<noteq> None
          then map strip (split_bar value) else []
      | _ \<Rightarrow> [])"

definition definition_graph :: "regex_search \<Rightarrow> string \<Rightarrow> (string \<times> string) set" where
  "definition_graph rx preprocessed_text =
     {(a, b). a \<in> set (referenced rx preprocessed_text b)}"

text \<open>The texts that stand after an \<open>=\<close> of a text, up to the next newline or comma.\<close>

fun assigned_values :: "string \<Rightarrow> string list" where
  "assigned_values [] = []"
| "assigned_values (c # cs) =
     (if c = CHR ''='' then [takeWhile is_value_char (dropWhile is_blank cs)] else [])
     @ assigned_values cs"

text \<open>
  The OR pass as the specification words it, for comparison with \<open>or_sub\<close>: every
  lookup reads the buffer as rewritten so far, that is the output produced up to
  the current match followed by the rest of the subject.
\<close>

function or_sub_as_specified ::
  "nat \<Rightarrow> regex_search \<Rightarrow> string \<Rightarrow> string \<Rightarrow> string result" where
  "or_sub_as_specified n rx done [] = Some (Inr done)"
| "or_sub_as_specified n rx done (c # cs) =
     (case match_or (c # cs) of
        Some (g0, rest) \<Rightarrow>
          (case replace_or n rx (done @ c # cs) g0 of
             None \<Rightarrow> None
           | Some (Inl e) \<Rightarrow> Some (Inl e)
           | Some (Inr repl) \<Rightarrow> or_sub_as_specified n rx (done @ repl) rest)
      | None \<Rightarrow> or_sub_as_specified n rx (done @ [c]) cs)"
  by pat_completeness auto

definition or_pass_as_specified :: "nat \<Rightarrow> regex_search \<Rightarrow> string \<Rightarrow> string result" where
  "or_pass_as_specified n rx preprocessed_text =
     or_sub_as_specified n rx [] preprocessed_text"

text \<open>
  A text with every OR chain \<open>g\<close> that the scan folds replaced by \<open>f g\<close>, for a
  function \<open>f\<close> of the chain alone; and the replacement text that \<open>replace_or\<close>
  computes for a chain against a fixed text.
\<close>

function or_substitute :: "(string \<Rightarrow> string) \<Rightarrow> string \<Rightarrow> string" where
  "or_substitute f [] = []"
| "or_substitute f (c # cs) =
     (case match_or (c # cs) of
        Some (g0, rest) \<Rightarrow> f g0 @ or_substitute f rest
      | None \<Rightarrow> c # or_substitute f cs)"
  by pat_completeness auto

definition value_text :: "nat \<Rightarrow> regex_search \<Rightarrow> string \<Rightarrow> string \<Rightarrow> string" where
  "value_text n rx preprocessed_text g0 =
     (case replace_or n rx preprocessed_text g0 of Some (Inr repl) \<Rightarrow> repl | _ \<Rightarrow> [])"

section \<open>Termination of the scans\<close>

text \<open>
  Every scan goes on after a match, which is never empty, or after one character:
  the rest of the text gets shorter.
\<close>

lemma strip_prefix_length:
  "strip_prefix p s = Some r \<Longrightarrow> length s = length p + length r"
  by (induction p s rule: strip_prefix.induct) (auto split: if_splits)

lemma match_shift_shorter:
  "match_shift s = Some (ds, rest) \<Longrightarrow> length rest < length s"
proof -
  assume m: "match_shift s = Some (ds, rest)"
  then obtain r where r: "strip_prefix ''(1 << ('' s = Some r"
    by (auto simp: match_shift_def split: option.splits)
  with m have "strip_prefix ''))'' (dropWhile is_digit r) = Some rest"
    by (auto simp: match_shift_def Let_def split: option.splits if_splits)
  then have "length rest \<le> length (dropWhile is_digit r)"
    by (auto dest: strip_prefix_length)
  also have "\<dots> \<le> length r" by (simp add: length_dropWhile_le)
  also have "\<dots> < length s" using strip_prefix_length [OF r] by simp
  finally show ?thesis .
qed

termination shift_sub
  by (relation "measure length") (auto dest: match_shift_shorter)

lemma match_val_length:
  "match_val s = Some (v, rest) \<Longrightarrow> length rest < length s"
proof -
  assume m: "match_val s = Some (v, rest)"
  then obtain pfx r where r: "strip_prefix pfx s = Some r" "pfx = ''nk_'' \<or> pfx = ''NK_''"
      and rest: "rest = dropWhile is_ident r"
    by (auto simp: match_val_def split: option.splits if_splits)
  have "length rest \<le> length r" using rest by (simp add: length_dropWhile_le)
  moreover have "length r < length s" using strip_prefix_length [OF r(1)] r(2) by auto
  ultimately show ?thesis by simp
qed

lemma match_or_group_length:
  "match_or_group s = Some (g, rest) \<Longrightarrow> length rest < length s"
proof -
  assume m: "match_or_group s = Some (g, rest)"
  then obtain c r v where d: "dropWhile is_blank s = c # r"
      and v: "match_val (dropWhile is_blank r) = Some (v, rest)"
    by (auto simp: match_or_group_def split: list.splits if_splits option.splits)
  have "length rest < length (dropWhile is_blank r)" using v by (rule match_val_length)
  also have "\<dots> \<le> length r" by (simp add: length_dropWhile_le)
  also have "\<dots> < length (dropWhile is_blank s)" using d by simp
  also have "\<dots> \<le> length s" by (simp add: length_dropWhile_le)
  finally show ?thesis .
qed

termination match_or_groups
  by (relation "measure length") (auto dest: match_or_group_length)

declare match_or_groups.simps [simp del]

lemma match_or_groups_length:
  "match_or_groups s = (gs, rest) \<Longrightarrow> length rest \<le> length s"
proof (induction s arbitrary: gs rest rule: match_or_groups.induct)
  case (1 s)
  show ?case
  proof (cases "match_or_group s")
    case None
    with "1.prems" show ?thesis by (simp add: match_or_groups.simps)
  next
    case (Some p)
    obtain g r where p: "p = (g, r)" by (cases p)
    obtain gs' r' where rec: "match_or_groups r = (gs', r')" by (cases "match_or_groups r")
    from "1.prems" Some p rec have "rest = r'" by (simp add: match_or_groups.simps)
    moreover have "length r' \<le> length r" using "1.IH" Some p rec by simp
    moreover have "length r < length s" using Some p by (auto dest: match_or_group_length)
    ultimately show ?thesis by simp
  qed
qed

lemma match_or_length:
  "match_or s = Some (g0, rest) \<Longrightarrow> length rest < length s"
proof -
  assume m: "match_or s = Some (g0, rest)"
  then obtain v r g r1 gs where v: "match_val s = Some (v, r)"
      and g: "match_or_group r = Some (g, r1)" and gs: "match_or_groups r1 = (gs, rest)"
    by (auto simp: match_or_def split: option.splits prod.splits)
  have "length rest \<le> length r1" using gs by (rule match_or_groups_length)
  also have "\<dots> < length r" using g by (rule match_or_group_length)
  also have "\<dots> < length s" using v by (rule match_val_length)
  finally show ?thesis .
qed

termination or_sub
  by (relation "measure (\<lambda>(n, rx, t, s). length s)") (auto dest: match_or_length)

lemma find_close_length: "find_close s = Some rest \<Longrightarrow> length rest < length s"
  by (induction s) (auto split: option.splits if_splits dest: strip_prefix_length)

lemma find_sizeof_length: "find_sizeof s = Some rest \<Longrightarrow> length rest < length s"
proof (induction s)
  case Nil
  then show ?case by simp
next
  case (Cons c cs)
  show ?case
  proof (cases "strip_prefix ''sizeof('' (c # cs)")
    case None
    with Cons show ?thesis by (auto split: if_splits)
  next
    case (Some r)
    show ?thesis
    proof (cases "find_close r")
      case None
      with Some Cons show ?thesis by (auto split: if_splits)
    next
      case inner: (Some rest')
      with Some Cons.prems have "rest' = rest" by simp
      moreover have "length rest' < length r" using inner by (rule find_close_length)
      moreover have "length r \<le> length (c # cs)" using strip_prefix_length [OF Some] by simp
      ultimately show ?thesis by simp
    qed
  qed
qed

lemma find_member_length: "find_member s = Some (g, rest) \<Longrightarrow> length rest < length s"
proof (induction s arbitrary: g)
  case Nil
  then show ?case by simp
next
  case (Cons c cs)
  show ?case
  proof (cases "if c = CHR '';'' then find_sizeof cs else None")
    case (Some rest')
    with Cons.prems have "rest' = rest" by simp
    moreover have "find_sizeof cs = Some rest'" using Some by (simp split: if_splits)
    then have "length rest' < length cs" by (rule find_sizeof_length)
    ultimately show ?thesis by simp
  next
    case None
    with Cons.prems obtain g' where "find_member cs = Some (g', rest)"
      by (auto split: option.splits)
    then have "length rest < length cs" by (rule Cons.IH)
    then show ?thesis by simp
  qed
qed

lemma match_table_length: "match_table s = Some (g1, rest) \<Longrightarrow> length rest < length s"
proof -
  assume "match_table s = Some (g1, rest)"
  then obtain r g where r: "strip_prefix ''struct nk_table {'' s = Some r"
      and g: "find_member r = Some (g, rest)"
    by (auto simp: match_table_def split: option.splits)
  have "length rest < length r" using g by (rule find_member_length)
  also have "\<dots> \<le> length s" using strip_prefix_length [OF r] by simp
  finally show ?thesis .
qed

termination stub_sub
  by (relation "measure length") (auto dest: match_table_length)

lemma decl_prefix_length:
  "strip_prefix draw_list_clear_decl s = Some rest \<Longrightarrow> length rest < length s"
proof -
  assume "strip_prefix draw_list_clear_decl s = Some rest"
  then have "length s = length draw_list_clear_decl + length rest"
    by (rule strip_prefix_length)
  moreover have "0 < length draw_list_clear_decl" by (simp add: draw_list_clear_decl_def)
  ultimately show ?thesis by simp
qed

termination remove_decl
  by (relation "measure length") (auto dest: decl_prefix_length)

termination parse_args
  by (relation "measure (\<lambda>(i, argv, f). length argv - i)") auto

declare parse_args.simps [simp del]

termination or_chains
  by (relation "measure length") (auto dest: match_or_length)

termination or_sub_as_specified
  by (relation "measure (\<lambda>(n, rx, d, s). length s)") (auto dest: match_or_length)

termination or_substitute
  by (relation "measure (\<lambda>(f, s). length s)") (auto dest: match_or_length)

section \<open>Properties of shift folding\<close>

lemma strip_prefix_iff: "strip_prefix p s = Some r \<longleftrightarrow> s = p @ r"
  by (induction p s rule: strip_prefix.induct) auto

lemma not_digit_rparen: "\<not> is_digit (CHR '')'')" by (simp add: is_digit_def)
lemma not_digit_lparen: "\<not> is_digit (CHR ''('')" by (simp add: is_digit_def)
lemma not_digit_space: "\<not> is_digit (CHR '' '')" by (simp add: is_digit_def)

lemma match_shift_iff:
  "match_shift s = Some (ds, rest) \<longleftrightarrow>
     ds \<noteq> [] \<and> (\<forall>c\<in>set ds. is_digit c) \<and> s = ''(1 << ('' @ ds @ ''))'' @ rest"
proof
  assume m: "match_shift s = Some (ds, rest)"
  then obtain r where r: "strip_prefix ''(1 << ('' s = Some r"
    by (auto simp: match_shift_def split: option.splits)
  with m have ds: "ds = takeWhile is_digit r" "ds \<noteq> []"
    and tl: "strip_prefix ''))'' (dropWhile is_digit r) = Some rest"
    by (auto simp: match_shift_def Let_def split: option.splits if_splits)
  have "r = ds @ dropWhile is_digit r" using ds by simp
  also have "dropWhile is_digit r = ''))'' @ rest" using tl by (simp only: strip_prefix_iff)
  finally have "r = ds @ ''))'' @ rest" .
  moreover have "s = ''(1 << ('' @ r" using r by (simp only: strip_prefix_iff)
  moreover have "\<forall>c\<in>set ds. is_digit c" using ds(1) by (auto dest: set_takeWhileD)
  ultimately show "ds \<noteq> [] \<and> (\<forall>c\<in>set ds. is_digit c) \<and> s = ''(1 << ('' @ ds @ ''))'' @ rest"
    using ds(2) by simp
next
  assume a: "ds \<noteq> [] \<and> (\<forall>c\<in>set ds. is_digit c) \<and> s = ''(1 << ('' @ ds @ ''))'' @ rest"
  then have s: "s = ''(1 << ('' @ ds @ ''))'' @ rest" and d: "\<And>c. c \<in> set ds \<Longrightarrow> is_digit c" and ne: "ds \<noteq> []"
    by auto
  show "match_shift s = Some (ds, rest)"
    unfolding s by (simp add: match_shift_def takeWhile_append2 dropWhile_append2 not_digit_rparen d ne)
qed

lemma match_shift_append:
  "match_shift s = Some (ds, rest) \<Longrightarrow> match_shift (s @ t) = Some (ds, rest @ t)"
  by (simp add: match_shift_iff)

lemma match_shift_Cons_lparen: "match_shift (c # cs) = Some x \<Longrightarrow> c = CHR ''(''"
  by (cases x) (simp add: match_shift_iff)

lemma evaluate_shift_pow: "evaluate_shift ds = str_int (2 ^ nat_of_dec ds)"
  by (simp add: evaluate_shift_def push_bit_of_1)

lemma lparen_not_in_tail:
  assumes "\<forall>c\<in>set g. is_digit c" "a @ CHR ''('' # u = g @ ''))''"
  shows False
proof -
  have "CHR ''('' \<in> set (a @ CHR ''('' # u)" by simp
  then have "CHR ''('' \<in> set (g @ ''))'')" using assms(2) by simp
  then show False using assms(1) by (auto simp: not_digit_lparen)
qed

lemma split_in_match:
  assumes g: "\<forall>c\<in>set g. is_digit c"
    and ne: "a \<noteq> []"
    and eq: "a @ CHR ''('' # u = ''(1 << ('' @ g @ ''))''"
  shows "u = g @ ''))''"
  using ne eq lparen_not_in_tail [OF g]
  by (auto simp: append_eq_Cons_conv)

lemma no_straddle:
  assumes none: "match_shift a = None" and ne: "a \<noteq> []"
  shows "match_shift (a @ ''(1 '' @ y) = None"
proof (rule ccontr)
  assume "match_shift (a @ ''(1 '' @ y) \<noteq> None"
  then obtain g r where m: "match_shift (a @ ''(1 '' @ y) = Some (g, r)" by auto
  then have gne: "g \<noteq> []" and gd: "\<forall>c\<in>set g. is_digit c"
    and eq: "a @ ''(1 '' @ y = (''(1 << ('' @ g @ ''))'') @ r"
    by (simp_all add: match_shift_iff)
  from eq obtain us where
    "(a = (''(1 << ('' @ g @ ''))'') @ us \<and> us @ ''(1 '' @ y = r) \<or>
     (a @ us = ''(1 << ('' @ g @ ''))'' \<and> ''(1 '' @ y = us @ r)"
    unfolding append_eq_append_conv2 by blast
  then show False
  proof
    assume "a = (''(1 << ('' @ g @ ''))'') @ us \<and> us @ ''(1 '' @ y = r"
    then have "match_shift a = Some (g, us)" using gne gd by (simp add: match_shift_iff)
    with none show False by simp
  next
    assume c2: "a @ us = ''(1 << ('' @ g @ ''))'' \<and> ''(1 '' @ y = us @ r"
    show False
    proof (cases us)
      case Nil
      with c2 have "match_shift a = Some (g, [])" using gne gd by (simp add: match_shift_iff)
      with none show False by simp
    next
      case (Cons x u)
      with c2 have x: "x = CHR ''(''" and rest: "''1 '' @ y = u @ r" by auto
      from c2 Cons x have "a @ CHR ''('' # u = ''(1 << ('' @ g @ ''))''" by simp
      from split_in_match [OF gd ne this] have u: "u = g @ ''))''" .
      from gne obtain d g' where g: "g = d # g'" by (cases g) auto
      with rest u have d: "d = CHR ''1''" and "CHR '' '' # y = g' @ ''))'' @ r" by auto
      then have "g' \<noteq> [] \<and> hd g' = CHR '' ''" by (cases g') auto
      then have "is_digit (CHR '' '')" using gd g by (cases g') auto
      then show False by (simp add: not_digit_space)
    qed
  qed
qed

text \<open>
  C2. Every occurrence of \<open>(1 << (N))\<close>, with \<open>N\<close> a non-empty string of decimal
  digits, is replaced by the decimal string of \<open>2 ^ N\<close>, whatever text stands before
  and after it; the text before and the text after are folded on their own. The
  function takes the text alone: no symbol is looked up.
\<close>

theorem shift_fold_occurrence:
  assumes "ds \<noteq> []" and "\<forall>c\<in>set ds. is_digit c"
  shows "shift_sub (pre @ ''(1 << ('' @ ds @ ''))'' @ post)
         = shift_sub pre @ str_int (2 ^ nat_of_dec ds) @ shift_sub post"
proof (induction pre rule: shift_sub.induct)
  case 1
  have "match_shift (''(1 << ('' @ ds @ ''))'' @ post) = Some (ds, post)"
    using assms by (simp add: match_shift_iff)
  then show ?case by (simp add: evaluate_shift_pow)
next
  case (2 c cs)
  let ?occ = "''(1 << ('' @ ds @ ''))'' @ post"
  show ?case
  proof (cases "match_shift (c # cs)")
    case None
    have "match_shift ((c # cs) @ ''(1 '' @ (''<< ('' @ ds @ ''))'' @ post)) = None"
      by (rule no_straddle [OF None]) simp
    then have "match_shift (c # cs @ ?occ) = None" by simp
    then show ?thesis using None 2 by simp
  next
    case (Some p)
    obtain g rest where p: "p = (g, rest)" by (cases p)
    with Some have "match_shift ((c # cs) @ ?occ) = Some (g, rest @ ?occ)"
      by (simp only: match_shift_append)
    then have "match_shift (c # cs @ ?occ) = Some (g, rest @ ?occ)" by simp
    then show ?thesis using Some p 2 by simp
  qed
qed

text \<open>The shifts 0, 1, 8 and 31 in one text.\<close>

theorem shift_fold_occurrence_witness:
  "shift_sub (''A = (1 << (0)), B = (1 << (1)), C = (1 << (8)), D = '' @ ''(1 << ('' @ ''31''
             @ ''))'' @ '','')
     = ''A = 1, B = 2, C = 256, D = 2147483648,''"
  using shift_fold_occurrence
    [of "''31''" "''A = (1 << (0)), B = (1 << (1)), C = (1 << (8)), D = ''" "'',''"]
  by (simp add: is_digit_def nat_of_dec_def digit_val_def str_int_def dec_nat.simps
      digit_chr_def match_shift_def evaluate_shift_def)
lemma shift_isolated_append: "shift_isolated (a @ b) \<Longrightarrow> shift_isolated b"
  by (induction a) auto

lemma digit_chr_is_digit: "d < 10 \<Longrightarrow> is_digit (digit_chr d)"
  unfolding is_digit_def digit_chr_def by (rule nth_mem) simp

lemma dec_nat_digits: "\<forall>c\<in>set (dec_nat n). is_digit c"
proof (induction n rule: dec_nat.induct)
  case (1 n)
  show ?case
  proof (cases "n < 10")
    case True
    then have "dec_nat n = [digit_chr n]" by (subst dec_nat.simps) simp
    then show ?thesis using True by (simp add: digit_chr_is_digit)
  next
    case False
    have "\<forall>c\<in>set (dec_nat (n div 10) @ [digit_chr (n mod 10)]). is_digit c"
      using 1 False by (simp add: digit_chr_is_digit)
    moreover have "dec_nat n = dec_nat (n div 10) @ [digit_chr (n mod 10)]"
      using False by (subst dec_nat.simps) simp
    ultimately show ?thesis by simp
  qed
qed

lemma dec_nat_nonempty: "dec_nat n \<noteq> []"
  by (subst dec_nat.simps) simp

lemma evaluate_shift_digits: "\<forall>c\<in>set (evaluate_shift g). is_digit c"
  by (simp only: evaluate_shift_pow str_int_def) (simp add: dec_nat_digits)

lemma evaluate_shift_nonempty: "evaluate_shift g \<noteq> []"
  by (simp only: evaluate_shift_pow str_int_def) (simp add: dec_nat_nonempty)

lemma match_shift_digit_None: "is_digit d \<Longrightarrow> match_shift (d # xs) = None"
proof (cases "match_shift (d # xs)")
  case (Some x)
  assume "is_digit d"
  with match_shift_Cons_lparen [OF Some] show ?thesis by (simp add: not_digit_lparen)
qed simp

lemma shift_sub_digits:
  "\<forall>c\<in>set ds. is_digit c \<Longrightarrow> shift_sub (ds @ x) = ds @ shift_sub x"
  by (induction ds) (simp_all add: match_shift_digit_None)

lemma shift_sub_copied:
  assumes "shift_sub xs = y # ys" "match_shift xs = None"
  shows "\<exists>xs'. xs = y # xs' \<and> shift_sub xs' = ys"
  using assms by (cases xs) auto

lemma shift_sub_head_nondigit:
  assumes "shift_sub xs = y # ys" "\<not> is_digit y"
  shows "match_shift xs = None"
proof (cases xs)
  case Nil
  with assms show ?thesis by simp
next
  case (Cons c cs)
  show ?thesis
  proof (cases "match_shift xs")
    case (Some p)
    obtain g r where p: "p = (g, r)" by (cases p)
    then have "shift_sub xs = evaluate_shift g @ shift_sub r" using Some Cons by simp
    moreover obtain e es where "evaluate_shift g = e # es"
      using evaluate_shift_nonempty [of g] by (cases "evaluate_shift g") auto
    moreover from this have "is_digit e" using evaluate_shift_digits [of g] by simp
    ultimately show ?thesis using assms by simp
  qed simp
qed

lemma shift_sub_literal:
  "\<forall>c\<in>set p. \<not> is_digit c \<Longrightarrow> shift_isolated xs \<Longrightarrow> shift_sub xs = p @ z \<Longrightarrow>
   \<exists>xs'. xs = p @ xs' \<and> shift_sub xs' = z \<and> shift_isolated xs'"
proof (induction p arbitrary: xs)
  case Nil
  then show ?case by simp
next
  case (Cons y p)
  from Cons.prems have eq: "shift_sub xs = y # (p @ z)" and nd: "\<not> is_digit y" by simp_all
  from shift_sub_copied [OF eq shift_sub_head_nondigit [OF eq nd]]
  obtain xs1 where xs1: "xs = y # xs1" "shift_sub xs1 = p @ z" by blast
  with Cons.prems have "shift_isolated xs1" by simp
  from Cons.IH [OF _ this xs1(2)] Cons.prems(1) xs1(1) show ?case by auto
qed

lemma shift_sub_digit_run:
  "\<forall>c\<in>set g. is_digit c \<Longrightarrow> shift_isolated xs \<Longrightarrow> match_shift xs = None \<Longrightarrow>
   shift_sub xs = g @ z \<Longrightarrow>
   \<exists>xs'. xs = g @ xs' \<and> shift_sub xs' = z \<and> shift_isolated xs'"
proof (induction g arbitrary: xs)
  case Nil
  then show ?case by simp
next
  case (Cons d g)
  from Cons.prems have eq: "shift_sub xs = d # (g @ z)" and dd: "is_digit d" by simp_all
  from shift_sub_copied [OF eq Cons.prems(3)]
  obtain xs1 where xs1: "xs = d # xs1" "shift_sub xs1 = g @ z" by blast
  with Cons.prems(2) dd have iso: "shift_isolated xs1" and nm: "match_shift xs1 = None" by auto
  from Cons.IH [OF _ iso nm xs1(2)] Cons.prems(1) xs1(1) show ?case by auto
qed

lemma no_new_match:
  assumes iso: "shift_isolated (c # cs)" and none: "match_shift (c # cs) = None"
  shows "match_shift (c # shift_sub cs) = None"
proof (rule ccontr)
  assume "match_shift (c # shift_sub cs) \<noteq> None"
  then obtain g r where "match_shift (c # shift_sub cs) = Some (g, r)" by auto
  then have gne: "g \<noteq> []" and gd: "\<forall>c\<in>set g. is_digit c"
    and c: "c = CHR ''(''" and out: "shift_sub cs = CHR ''1'' # ('' << ('' @ g @ ''))'' @ r)"
    by (simp_all add: match_shift_iff)
  from iso c have cs_iso: "shift_isolated cs" and cs_nm: "match_shift cs = None" by auto
  from shift_sub_copied [OF out cs_nm]
  obtain cs1 where cs1: "cs = CHR ''1'' # cs1" "shift_sub cs1 = '' << ('' @ (g @ ''))'' @ r)"
    by auto
  from cs_iso cs1(1) have "shift_isolated cs1" by simp
  have lit: "\<forall>c\<in>set '' << (''. \<not> is_digit c" by (simp add: is_digit_def)
  from shift_sub_literal [of "'' << (''" cs1 "g @ ''))'' @ r", OF lit \<open>shift_isolated cs1\<close> cs1(2)]
  obtain cs6 where cs6: "cs1 = '' << ('' @ cs6" "shift_sub cs6 = g @ ''))'' @ r"
    by blast
  have "shift_isolated (''(1 << '' @ (CHR ''('' # cs6))" using iso c cs1(1) cs6(1) by simp
  then have "shift_isolated (CHR ''('' # cs6)" by (rule shift_isolated_append)
  then have iso6: "shift_isolated cs6" and nm6: "match_shift cs6 = None" by auto
  from shift_sub_digit_run [of g cs6 "''))'' @ r", OF gd iso6 nm6 cs6(2)]
  obtain cs7 where cs7: "cs6 = g @ cs7" "shift_sub cs7 = ''))'' @ r" "shift_isolated cs7"
    by blast
  have lit2: "\<forall>c\<in>set ''))''. \<not> is_digit c" by (simp add: is_digit_def)
  from shift_sub_literal [of "''))''" cs7 r, OF lit2 cs7(3) cs7(2)]
  obtain cs8 where cs8: "cs7 = ''))'' @ cs8" by blast
  have "c # cs = ''(1 << ('' @ g @ ''))'' @ cs8"
    using c cs1(1) cs6(1) cs7(1) cs8 by simp
  then have "match_shift (c # cs) = Some (g, cs8)" using gne gd by (simp only: match_shift_iff) simp
  with none show False by simp
qed

text \<open>
  C5, as amended. Shift folding is idempotent on every text in which no occurrence
  of \<open>(1 << (N))\<close> stands directly after an opening parenthesis or a decimal
  digit: a second pass over the output of the first changes nothing. Without the
  condition a replacement can complete a new occurrence.
\<close>

theorem shift_fold_idempotent_isolated:
  "shift_isolated t \<Longrightarrow> shift_sub (shift_sub t) = shift_sub t"
proof (induction t rule: shift_sub.induct)
  case 1
  then show ?case by simp
next
  case (2 c cs)
  show ?case
  proof (cases "match_shift (c # cs)")
    case None
    from "2.prems" have "shift_isolated cs" by simp
    with 2 None have "shift_sub (shift_sub cs) = shift_sub cs" by simp
    then show ?thesis using None no_new_match [OF "2.prems" None] by simp
  next
    case (Some p)
    obtain g rest where p: "p = (g, rest)" by (cases p)
    with Some have "c # cs = (''(1 << ('' @ g @ ''))'') @ rest" by (simp add: match_shift_iff)
    with "2.prems" have "shift_isolated rest" by (metis shift_isolated_append)
    with 2 Some p have "shift_sub (shift_sub rest) = shift_sub rest" by simp
    then show ?thesis using Some p by (simp add: shift_sub_digits evaluate_shift_digits)
  qed
qed

text \<open>The condition holds for an enum line, and the second pass leaves its folded form alone.\<close>

theorem shift_fold_idempotent_isolated_witness:
  "shift_isolated ''NK_A = (1 << (4)),'' \<and>
   shift_sub ''NK_A = (1 << (4)),'' = ''NK_A = 16,'' \<and>
   shift_sub (shift_sub ''NK_A = (1 << (4)),'') = shift_sub ''NK_A = (1 << (4)),''"
proof -
  have i: "shift_isolated ''NK_A = (1 << (4)),''"
    by (simp add: is_digit_def match_shift_def)
  have s: "shift_sub ''NK_A = (1 << (4)),'' = ''NK_A = 16,''"
    by (simp add: match_shift_def evaluate_shift_def nat_of_dec_def digit_val_def is_digit_def
        str_int_def dec_nat.simps digit_chr_def)
  from shift_fold_idempotent_isolated [OF i] i s show ?thesis by blast
qed

text \<open>
  C5 as stated fails: folding the nested text \<open>(1 << ((1 << (3))))\<close> gives
  \<open>(1 << (8))\<close>, which a second pass folds again, to \<open>256\<close>.
\<close>

theorem shift_fold_not_idempotent:
  "shift_sub ''(1 << ((1 << (3))))'' = ''(1 << (8))'' \<and>
   shift_sub (shift_sub ''(1 << ((1 << (3))))'') = ''256'' \<and>
   shift_sub (shift_sub ''(1 << ((1 << (3))))'') \<noteq> shift_sub ''(1 << ((1 << (3))))''"
  by (simp add: match_shift_def evaluate_shift_def nat_of_dec_def digit_val_def is_digit_def
      str_int_def dec_nat.simps digit_chr_def)

section \<open>Properties of bitwise-OR folding\<close>

lemma digit_values:
  "digit_value CHR ''0'' = 0" "digit_value CHR ''1'' = 1" "digit_value CHR ''2'' = 2"
  "digit_value CHR ''3'' = 3" "digit_value CHR ''4'' = 4" "digit_value CHR ''5'' = 5"
  "digit_value CHR ''6'' = 6" "digit_value CHR ''7'' = 7" "digit_value CHR ''8'' = 8"
  "digit_value CHR ''9'' = 9" "digit_value CHR ''A'' = 10"
  by (simp_all add: digit_value_def is_digit_def)

lemma digits_not_space:
  "\<not> is_space CHR ''0''" "\<not> is_space CHR ''1''" "\<not> is_space CHR ''2''" "\<not> is_space CHR ''3''"
  "\<not> is_space CHR ''4''" "\<not> is_space CHR ''5''" "\<not> is_space CHR ''6''" "\<not> is_space CHR ''7''"
  "\<not> is_space CHR ''8''" "\<not> is_space CHR ''9''" "\<not> is_space CHR ''A''"
  by (simp_all add: is_space_def)

lemma int_base0_literals:
  "int_base0 ''1'' = Inr 1" "int_base0 ''2'' = Inr 2" "int_base0 ''4'' = Inr 4"
  "int_base0 ''5'' = Inr 5"
  "int_base0 ''A | B'' = Inl (ValueError ''A | B'')"
  by (simp_all add: int_base0_def digit_values digits_not_space nat_of_digits_def)

lemmas or_eval =
  or_pass_def replace_or_def evaluate_or_def evaluate_or_with_def
  find_assignment_def plain_name_def is_special_def no_regex_def
  match_or_def match_or_group_def match_or_groups.simps match_val_def is_ident_def is_blank_def
  match_assign_def is_value_char_def strip_def is_space_def
  str_int_def dec_nat.simps digit_chr_def int_base0_literals

lemma lookup_value_plain:
  "plain_name name \<Longrightarrow>
   lookup_value (Suc n) rx t name =
     (case search_assign name t of
        None \<Rightarrow> Some (Inl (CannotFind name))
      | Some v \<Rightarrow> if match_or v \<noteq> None \<or> match_val v \<noteq> None
                  then evaluate_or_with (lookup_value n rx t) v
                  else Some (int_base0 v))"
  by (simp add: find_assignment_def split: option.splits)

lemma evaluate_or_with_two:
  "map strip (split_bar v) = [a, b] \<Longrightarrow> f a = Some (Inr x) \<Longrightarrow> f b = Some (Inr y) \<Longrightarrow>
   evaluate_or_with f v = Some (Inr (x OR y))"
  by (simp add: evaluate_or_with_def)

lemma plain_names:
  "plain_name ''NK_A''" "plain_name ''NK_B''" "plain_name ''NK_C''" "plain_name ''NK_D''"
  "plain_name ''NK_E''" "plain_name ''NK_FLAGS''"
  by (simp_all add: plain_name_def is_special_def)

lemma literal_values:
  "match_val ''1'' = None" "match_val ''2'' = None" "match_val ''4'' = None"
  "match_or ''1'' = None" "match_or ''2'' = None" "match_or ''4'' = None"
  by (simp_all add: match_val_def match_or_def)

lemma chain_values:
  "match_val ''NK_A | NK_B'' \<noteq> None" "match_val ''NK_C | NK_E'' \<noteq> None"
  "map strip (split_bar ''NK_A | NK_B'') = [''NK_A'', ''NK_B'']"
  "map strip (split_bar ''NK_C | NK_E'') = [''NK_C'', ''NK_E'']"
  by (simp_all add: match_val_def is_ident_def strip_def is_space_def)

text \<open>
  C1, as amended. Symbols carry the library prefix and every term of a chain is a
  symbol. For every text in which the assignments found by the search for \<open>NK_A\<close>,
  \<open>NK_B\<close> and \<open>NK_FLAGS\<close> hold \<open>1\<close>, \<open>2\<close> and \<open>NK_A | NK_B\<close>, \<open>lookup_value\<close>
  resolves \<open>NK_FLAGS\<close> to 3; where moreover \<open>NK_C\<close> holds \<open>NK_A | NK_B\<close>, \<open>NK_E\<close>
  holds \<open>4\<close> and \<open>NK_D\<close> holds \<open>NK_C | NK_E\<close>, it resolves \<open>NK_D\<close> to 7, through
  the recursive resolution of \<open>NK_C\<close> and the bitwise OR of the resolved integers.
\<close>

theorem or_chain_resolution:
  "(search_assign ''NK_A'' t = Some ''1'' \<and> search_assign ''NK_B'' t = Some ''2'' \<and>
    search_assign ''NK_FLAGS'' t = Some ''NK_A | NK_B''
      \<longrightarrow> lookup_value (Suc (Suc n)) rx t ''NK_FLAGS'' = Some (Inr 3)) \<and>
   (search_assign ''NK_A'' t = Some ''1'' \<and> search_assign ''NK_B'' t = Some ''2'' \<and>
    search_assign ''NK_C'' t = Some ''NK_A | NK_B'' \<and> search_assign ''NK_E'' t = Some ''4'' \<and>
    search_assign ''NK_D'' t = Some ''NK_C | NK_E''
      \<longrightarrow> lookup_value (Suc (Suc (Suc n))) rx t ''NK_D'' = Some (Inr 7))"
proof -
  have lit: "lookup_value (Suc k) rx t name = Some (Inr i)"
    if "plain_name name" "search_assign name t = Some v" "match_or v = None"
       "match_val v = None" "int_base0 v = Inr i" for k name v i
    using that by (simp add: lookup_value_plain del: lookup_value.simps)
  have chain: "lookup_value (Suc k) rx t name = Some (Inr (x OR y))"
    if "plain_name name" "search_assign name t = Some v" "match_val v \<noteq> None"
       "map strip (split_bar v) = [a, b]"
       "lookup_value k rx t a = Some (Inr x)" "lookup_value k rx t b = Some (Inr y)"
    for k name v a b x y
    using that by (simp add: lookup_value_plain evaluate_or_with_two del: lookup_value.simps)
  have or12: "(1::int) OR 2 = 3" and or34: "(3::int) OR 4 = 7" by simp_all
  have flags: "lookup_value (Suc (Suc k)) rx t name = Some (Inr 3)"
    if "search_assign ''NK_A'' t = Some ''1''" "search_assign ''NK_B'' t = Some ''2''"
       "search_assign name t = Some ''NK_A | NK_B''" "plain_name name" for k name
  proof -
    have a: "lookup_value (Suc k) rx t ''NK_A'' = Some (Inr 1)"
      by (rule lit [OF plain_names(1) that(1) literal_values(4) literal_values(1)
            int_base0_literals(1)])
    have b: "lookup_value (Suc k) rx t ''NK_B'' = Some (Inr 2)"
      by (rule lit [OF plain_names(2) that(2) literal_values(5) literal_values(2)
            int_base0_literals(2)])
    from chain [OF that(4) that(3) chain_values(1) chain_values(3) a b] or12
    show ?thesis by simp
  qed
  have d: "lookup_value (Suc (Suc (Suc n))) rx t ''NK_D'' = Some (Inr 7)"
    if "search_assign ''NK_A'' t = Some ''1''" "search_assign ''NK_B'' t = Some ''2''"
       "search_assign ''NK_C'' t = Some ''NK_A | NK_B''" "search_assign ''NK_E'' t = Some ''4''"
       "search_assign ''NK_D'' t = Some ''NK_C | NK_E''"
  proof -
    have c: "lookup_value (Suc (Suc n)) rx t ''NK_C'' = Some (Inr 3)"
      by (rule flags [OF that(1) that(2) that(3) plain_names(3)])
    have e: "lookup_value (Suc (Suc n)) rx t ''NK_E'' = Some (Inr 4)"
      by (rule lit [OF plain_names(5) that(4) literal_values(6) literal_values(3)
            int_base0_literals(3)])
    from chain [OF plain_names(4) that(5) chain_values(2) chain_values(4) c e] or34
    show ?thesis by simp
  qed
  show ?thesis using flags [OF _ _ _ plain_names(6)] d by blast
qed

lemmas search_eval = match_assign_def is_blank_def is_value_char_def

text \<open>A text with these six assignments, and the two results on it.\<close>

theorem or_chain_resolution_witness:
  "search_assign ''NK_A'' ''NK_A = 1,\<newline>NK_B = 2,\<newline>NK_E = 4,\<newline>NK_FLAGS = NK_A | NK_B,\<newline>NK_C = NK_A | NK_B,\<newline>NK_D = NK_C | NK_E\<newline>'' = Some ''1'' \<and>
   search_assign ''NK_B'' ''NK_A = 1,\<newline>NK_B = 2,\<newline>NK_E = 4,\<newline>NK_FLAGS = NK_A | NK_B,\<newline>NK_C = NK_A | NK_B,\<newline>NK_D = NK_C | NK_E\<newline>'' = Some ''2'' \<and>
   search_assign ''NK_E'' ''NK_A = 1,\<newline>NK_B = 2,\<newline>NK_E = 4,\<newline>NK_FLAGS = NK_A | NK_B,\<newline>NK_C = NK_A | NK_B,\<newline>NK_D = NK_C | NK_E\<newline>'' = Some ''4'' \<and>
   search_assign ''NK_FLAGS'' ''NK_A = 1,\<newline>NK_B = 2,\<newline>NK_E = 4,\<newline>NK_FLAGS = NK_A | NK_B,\<newline>NK_C = NK_A | NK_B,\<newline>NK_D = NK_C | NK_E\<newline>'' = Some ''NK_A | NK_B'' \<and>
   search_assign ''NK_C'' ''NK_A = 1,\<newline>NK_B = 2,\<newline>NK_E = 4,\<newline>NK_FLAGS = NK_A | NK_B,\<newline>NK_C = NK_A | NK_B,\<newline>NK_D = NK_C | NK_E\<newline>'' = Some ''NK_A | NK_B'' \<and>
   search_assign ''NK_D'' ''NK_A = 1,\<newline>NK_B = 2,\<newline>NK_E = 4,\<newline>NK_FLAGS = NK_A | NK_B,\<newline>NK_C = NK_A | NK_B,\<newline>NK_D = NK_C | NK_E\<newline>'' = Some ''NK_C | NK_E'' \<and>
   lookup_value (Suc (Suc 0)) no_regex ''NK_A = 1,\<newline>NK_B = 2,\<newline>NK_E = 4,\<newline>NK_FLAGS = NK_A | NK_B,\<newline>NK_C = NK_A | NK_B,\<newline>NK_D = NK_C | NK_E\<newline>'' ''NK_FLAGS'' = Some (Inr 3) \<and>
   lookup_value (Suc (Suc (Suc 0))) no_regex ''NK_A = 1,\<newline>NK_B = 2,\<newline>NK_E = 4,\<newline>NK_FLAGS = NK_A | NK_B,\<newline>NK_C = NK_A | NK_B,\<newline>NK_D = NK_C | NK_E\<newline>'' ''NK_D'' = Some (Inr 7)"
proof -
  let ?t = "''NK_A = 1,\<newline>NK_B = 2,\<newline>NK_E = 4,\<newline>NK_FLAGS = NK_A | NK_B,\<newline>NK_C = NK_A | NK_B,\<newline>NK_D = NK_C | NK_E\<newline>''"
  have s: "search_assign ''NK_A'' ?t = Some ''1''" "search_assign ''NK_B'' ?t = Some ''2''"
    "search_assign ''NK_E'' ?t = Some ''4''"
    "search_assign ''NK_FLAGS'' ?t = Some ''NK_A | NK_B''"
    "search_assign ''NK_C'' ?t = Some ''NK_A | NK_B''"
    "search_assign ''NK_D'' ?t = Some ''NK_C | NK_E''"
    by (simp_all add: search_eval)
  from or_chain_resolution [of ?t 0 no_regex] s show ?thesis by blast
qed

text \<open>
  C1 as stated fails. A value made of names without the prefix, \<open>A | B\<close>, is not
  recognised as a chain and goes to \<open>int\<close>, which raises. With the prefix,
  \<open>NK_C | 4\<close> is evaluated as a chain, whose term \<open>4\<close> is looked up as a symbol:
  no assignment to \<open>4\<close> is found and the lookup raises. And a text that contains
  the three assignments may hold, before them, a longer name that ends in \<open>NK_A\<close>:
  the search finds that assignment first.
\<close>

theorem or_chain_resolution_as_written_fails:
  "lookup_value (Suc 0) no_regex ''A = 1,\<newline>B = 2,\<newline>FLAGS = A | B\<newline>'' ''FLAGS''
     = Some (Inl (ValueError ''A | B'')) \<and>
   lookup_value (Suc (Suc (Suc 0))) no_regex
       ''NK_A = 1,\<newline>NK_B = 2,\<newline>NK_C = NK_A | NK_B,\<newline>NK_D = NK_C | 4\<newline>'' ''NK_D''
     = Some (Inl (CannotFind ''4'')) \<and>
   lookup_value (Suc (Suc 0)) no_regex
       ''XNK_A = 5,\<newline>NK_A = 1,\<newline>NK_B = 2,\<newline>NK_FLAGS = NK_A | NK_B\<newline>'' ''NK_FLAGS''
     = Some (Inr 7)"
  by (simp add: or_eval)







lemma or_sub_substitute:
  "or_sub n rx t s = Some (Inr out) \<Longrightarrow> out = or_substitute (value_text n rx t) s"
proof (induction s arbitrary: out rule: or_chains.induct)
  case 1
  then show ?case by simp
next
  case (2 c cs)
  show ?case
  proof (cases "match_or (c # cs)")
    case None
    with "2.prems" obtain out' where o: "or_sub n rx t cs = Some (Inr out')" "out = c # out'"
      by (auto split: option.splits sum.splits)
    from "2.IH"(1) [OF None o(1)] o(2) None show ?thesis by simp
  next
    case (Some p)
    obtain g0 rest where p: "p = (g0, rest)" by (cases p)
    with "2.prems" Some obtain repl out' where
      r: "replace_or n rx t g0 = Some (Inr repl)" and
      o: "or_sub n rx t rest = Some (Inr out')" "out = repl @ out'"
      by (auto split: option.splits sum.splits)
    from "2.IH"(2) [OF Some [unfolded p] refl o(1)] o(2) r Some p show ?thesis
      by (simp add: value_text_def)
  qed
qed

text \<open>
  C7, as amended. During the OR pass every lookup reads the text as it is when the
  pass starts, that is the output of shift folding: when the pass returns, its
  output is the subject with every chain replaced by the value text computed for
  that chain against this one text, wherever the chain stands. The values that shift
  folding wrote are part of that text; a value written earlier in the OR pass is not.
\<close>

theorem or_pass_reads_initial_text:
  "(or_pass n rx t = Some (Inr out) \<longrightarrow> out = or_substitute (value_text n rx t) t) \<and>
   (build_nuklear_defs n rx p extra_cdef = Some (Inr defs) \<longrightarrow>
      defs = remove_decl (stub_sub
               (or_substitute (value_text n rx (shift_sub p)) (shift_sub p))) @ extra_cdef)"
proof -
  have "or_pass n rx u = Some (Inr v) \<Longrightarrow> v = or_substitute (value_text n rx u) u" for u v
    unfolding or_pass_def by (rule or_sub_substitute)
  then show ?thesis
    by (auto simp: build_nuklear_defs_def Let_def split: option.splits sum.splits)
qed

text \<open>
  Two chains folded against the text the pass started on, and a run of the pipeline
  in which the lookups read the values that shift folding wrote.
\<close>

theorem or_pass_reads_initial_text_witness:
  "or_pass 1 no_regex ''NK_A = 1,\<newline>NK_B = 2,\<newline>NK_C = NK_A | NK_B,\<newline>NK_D = NK_A|NK_B\<newline>''
     = Some (Inr ''NK_A = 1,\<newline>NK_B = 2,\<newline>NK_C = 3,\<newline>NK_D = 3\<newline>'') \<and>
   ''NK_A = 1,\<newline>NK_B = 2,\<newline>NK_C = 3,\<newline>NK_D = 3\<newline>''
     = or_substitute (value_text 1 no_regex ''NK_A = 1,\<newline>NK_B = 2,\<newline>NK_C = NK_A | NK_B,\<newline>NK_D = NK_A|NK_B\<newline>'')
         ''NK_A = 1,\<newline>NK_B = 2,\<newline>NK_C = NK_A | NK_B,\<newline>NK_D = NK_A|NK_B\<newline>'' \<and>
   build_nuklear_defs 1 no_regex ''NK_A = (1 << (0)),\<newline>NK_B = (1 << (1)),\<newline>NK_C = NK_A | NK_B\<newline>'' ''int x;''
     = Some (Inr ''NK_A = 1,\<newline>NK_B = 2,\<newline>NK_C = 3\<newline>int x;'') \<and>
   ''NK_A = 1,\<newline>NK_B = 2,\<newline>NK_C = 3\<newline>int x;''
     = remove_decl (stub_sub (or_substitute
         (value_text 1 no_regex (shift_sub ''NK_A = (1 << (0)),\<newline>NK_B = (1 << (1)),\<newline>NK_C = NK_A | NK_B\<newline>''))
         (shift_sub ''NK_A = (1 << (0)),\<newline>NK_B = (1 << (1)),\<newline>NK_C = NK_A | NK_B\<newline>''))) @ ''int x;''"
proof -
  have a: "or_pass 1 no_regex ''NK_A = 1,\<newline>NK_B = 2,\<newline>NK_C = NK_A | NK_B,\<newline>NK_D = NK_A|NK_B\<newline>''
     = Some (Inr ''NK_A = 1,\<newline>NK_B = 2,\<newline>NK_C = 3,\<newline>NK_D = 3\<newline>'')"
    by (simp add: or_eval)
  have s: "shift_sub ''NK_A = (1 << (0)),\<newline>NK_B = (1 << (1)),\<newline>NK_C = NK_A | NK_B\<newline>''
     = ''NK_A = 1,\<newline>NK_B = 2,\<newline>NK_C = NK_A | NK_B\<newline>''"
    by (simp add: match_shift_def evaluate_shift_def nat_of_dec_def digit_val_def is_digit_def
        str_int_def dec_nat.simps digit_chr_def)
  have o: "or_pass 1 no_regex ''NK_A = 1,\<newline>NK_B = 2,\<newline>NK_C = NK_A | NK_B\<newline>''
     = Some (Inr ''NK_A = 1,\<newline>NK_B = 2,\<newline>NK_C = 3\<newline>'')"
    by (simp add: or_eval)
  have b: "build_nuklear_defs 1 no_regex ''NK_A = (1 << (0)),\<newline>NK_B = (1 << (1)),\<newline>NK_C = NK_A | NK_B\<newline>'' ''int x;''
     = Some (Inr ''NK_A = 1,\<newline>NK_B = 2,\<newline>NK_C = 3\<newline>int x;'')"
    unfolding build_nuklear_defs_def Let_def s o
    by (simp add: match_table_def draw_list_clear_decl_def)
  from or_pass_reads_initial_text
    [of 1 no_regex "''NK_A = 1,\<newline>NK_B = 2,\<newline>NK_C = NK_A | NK_B,\<newline>NK_D = NK_A|NK_B\<newline>''"
        "''NK_A = 1,\<newline>NK_B = 2,\<newline>NK_C = 3,\<newline>NK_D = 3\<newline>''"
        "''NK_A = (1 << (0)),\<newline>NK_B = (1 << (1)),\<newline>NK_C = NK_A | NK_B\<newline>''"
        "''int x;''" "''NK_A = 1,\<newline>NK_B = 2,\<newline>NK_C = 3\<newline>int x;''"]
    a b
  show ?thesis by blast
qed

text \<open>
  C7 as stated fails. In this text the first chain stands before an \<open>=\<close>; once it
  is replaced by \<open>6\<close>, the buffer no longer holds the assignment \<open>NK_B = 2\<close>. The
  program still resolves \<open>NK_B\<close> to 2 for the second chain and writes 6; a lookup
  in the rewritten buffer would find \<open>NK_B = 1\<close> and write 5.
\<close>

theorem or_pass_not_as_specified:
  "or_pass 1 no_regex ''NK_A = 4,\<newline>NK_A | NK_B = 2,\<newline>NK_B = 1,\<newline>NK_A | NK_B\<newline>''
     = Some (Inr ''NK_A = 4,\<newline>6 = 2,\<newline>NK_B = 1,\<newline>6\<newline>'') \<and>
   or_pass_as_specified 1 no_regex ''NK_A = 4,\<newline>NK_A | NK_B = 2,\<newline>NK_B = 1,\<newline>NK_A | NK_B\<newline>''
     = Some (Inr ''NK_A = 4,\<newline>6 = 2,\<newline>NK_B = 1,\<newline>5\<newline>'') \<and>
   or_pass 1 no_regex ''NK_A = 4,\<newline>NK_A | NK_B = 2,\<newline>NK_B = 1,\<newline>NK_A | NK_B\<newline>''
     \<noteq> or_pass_as_specified 1 no_regex ''NK_A = 4,\<newline>NK_A | NK_B = 2,\<newline>NK_B = 1,\<newline>NK_A | NK_B\<newline>''"
  by (simp add: or_eval or_pass_as_specified_def)

lemma map_values_returns:
  "(\<And>x. x \<in> set xs \<Longrightarrow> f x \<noteq> None) \<Longrightarrow> map_values f xs \<noteq> None"
  by (induction xs) (auto split: option.splits sum.splits)

lemma evaluate_or_with_returns:
  "(\<And>x. x \<in> set (map strip (split_bar e)) \<Longrightarrow> f x \<noteq> None) \<Longrightarrow>
   evaluate_or_with f e \<noteq> None"
  using map_values_returns [of "map strip (split_bar e)" f]
  by (auto simp: evaluate_or_with_def split: option.splits sum.splits)

lemma lookup_value_step_returns:
  assumes "\<And>x. x \<in> set (referenced rx t name) \<Longrightarrow> lookup_value m rx t x \<noteq> None"
  shows "lookup_value (Suc m) rx t name \<noteq> None"
proof (cases "find_assignment rx name t")
  case (Inl e)
  then show ?thesis by simp
next
  case (Inr found)
  show ?thesis
  proof (cases found)
    case None
    with Inr show ?thesis by simp
  next
    case (Some v)
    show ?thesis
    proof (cases "match_or v \<noteq> None \<or> match_val v \<noteq> None")
      case False
      with Inr Some show ?thesis by simp
    next
      case True
      with Inr Some have "referenced rx t name = map strip (split_bar v)"
        by (simp add: referenced_def)
      with assms have "evaluate_or_with (lookup_value m rx t) v \<noteq> None"
        by (intro evaluate_or_with_returns) simp
      with Inr Some True show ?thesis by simp
    qed
  qed
qed

lemma wf_resolution_returns:
  assumes "wf (definition_graph rx t)"
  shows "\<exists>n. \<forall>m\<ge>n. lookup_value m rx t name \<noteq> None"
  using assms
proof (induction name rule: wf_induct_rule)
  case (less name)
  have "\<exists>N. \<forall>x\<in>set xs. \<forall>m\<ge>N. lookup_value m rx t x \<noteq> None"
    if "set xs \<subseteq> set (referenced rx t name)" for xs
    using that
  proof (induction xs)
    case Nil
    show ?case by simp
  next
    case (Cons x xs)
    then obtain N where N: "\<forall>y\<in>set xs. \<forall>m\<ge>N. lookup_value m rx t y \<noteq> None" by auto
    from Cons.prems have "(x, name) \<in> definition_graph rx t"
      by (simp add: definition_graph_def)
    from less.IH [OF this] obtain K where K: "\<forall>m\<ge>K. lookup_value m rx t x \<noteq> None" by blast
    have "\<forall>y\<in>set (x # xs). \<forall>m\<ge>max N K. lookup_value m rx t y \<noteq> None"
      using N K by auto
    then show ?case by blast
  qed
  then obtain N where N: "\<forall>x\<in>set (referenced rx t name). \<forall>m\<ge>N. lookup_value m rx t x \<noteq> None"
    by blast
  have "\<forall>m\<ge>Suc N. lookup_value m rx t name \<noteq> None"
  proof (intro allI impI)
    fix m assume "Suc N \<le> m"
    then obtain m' where m: "m = Suc m'" "N \<le> m'" by (cases m) auto
    show "lookup_value m rx t name \<noteq> None"
      unfolding m(1) by (rule lookup_value_step_returns) (use N m(2) in blast)
  qed
  then show ?case by blast
qed

lemma finite_domain_acyclic_wf:
  assumes fin: "finite F" and dom: "Domain r \<subseteq> F" and acyc: "acyclic r"
  shows "wf r"
proof (rule wfI_min)
  fix x :: 'a and Q assume xQ: "x \<in> Q"
  let ?r' = "r \<inter> (F \<times> F)"
  have "finite ?r'" using fin by simp
  moreover have "acyclic ?r'" using acyc by (rule acyclic_subset) simp
  ultimately have wf': "wf ?r'" by (rule finite_acyclic_wf)
  show "\<exists>z\<in>Q. \<forall>y. (y, z) \<in> r \<longrightarrow> y \<notin> Q"
  proof (cases "\<exists>y\<in>Q. (y, x) \<in> r")
    case False
    with xQ show ?thesis by blast
  next
    case True
    then obtain y where y: "y \<in> Q" "(y, x) \<in> r" by blast
    with dom have "y \<in> Q \<inter> F" by auto
    from wfE_min [OF wf' this] obtain z where
      z: "z \<in> Q \<inter> F" "\<And>w. (w, z) \<in> ?r' \<Longrightarrow> w \<notin> Q \<inter> F" by blast
    have "\<forall>w. (w, z) \<in> r \<longrightarrow> w \<notin> Q"
    proof (intro allI impI)
      fix w assume wz: "(w, z) \<in> r"
      then have "w \<in> F" using dom by auto
      with wz z(1) have "(w, z) \<in> ?r'" by simp
      from z(2) [OF this] \<open>w \<in> F\<close> show "w \<notin> Q" by simp
    qed
    with z(1) show ?thesis by blast
  qed
qed

lemma match_assign_sublist: "match_assign name s = Some v \<Longrightarrow> sublist v s"
proof -
  assume m: "match_assign name s = Some v"
  then obtain r c r' where r: "strip_prefix name s = Some r"
      and d: "dropWhile is_blank r = c # r'"
      and v: "v = takeWhile is_value_char (dropWhile is_blank r')"
    by (auto simp: match_assign_def split: option.splits list.splits if_splits)
  have "sublist v (dropWhile is_blank r')" unfolding v by simp
  also have "sublist (dropWhile is_blank r') r'" by simp
  also have "sublist r' (c # r')" by (simp add: sublist_Cons_right)
  also have "sublist (c # r') r" using sublist_dropWhile [of is_blank r] d by simp
  also have "sublist r s" using r by (simp add: strip_prefix_iff)
  finally show ?thesis .
qed

lemma search_assign_sublist: "search_assign name t = Some v \<Longrightarrow> sublist v t"
proof (induction t)
  case Nil
  then show ?case by (auto dest: match_assign_sublist)
next
  case (Cons c cs)
  show ?case
  proof (cases "match_assign name (c # cs)")
    case None
    with Cons have "sublist v cs" by simp
    then show ?thesis by (simp add: sublist_Cons_right)
  next
    case (Some w)
    with Cons.prems show ?thesis by (auto dest: match_assign_sublist)
  qed
qed

lemma finite_sublists: "finite {v. sublist v (t :: 'a list)}"
proof -
  have "{v. sublist v t} \<subseteq> {v. set v \<subseteq> set t \<and> length v \<le> length t}"
    by (auto dest: sublist_length_le set_mono_sublist)
  moreover have "finite {v. set v \<subseteq> set t \<and> length v \<le> length t}"
    by (rule finite_lists_length_le) simp
  ultimately show ?thesis by (rule finite_subset)
qed

lemma referenced_found:
  "a \<in> set (referenced rx t b) \<Longrightarrow>
   \<exists>v. find_assignment rx b t = Inr (Some v) \<and> a \<in> set (map strip (split_bar v))"
  unfolding referenced_def
  by (cases "find_assignment rx b t") (auto split: option.splits if_splits)

lemma definition_graph_wf:
  assumes acyc: "acyclic (definition_graph rx t)"
    and rx: "\<forall>name v. rx name t = Inr (Some v) \<longrightarrow> sublist v t"
  shows "wf (definition_graph rx t)"
proof -
  let ?F = "\<Union>v\<in>{v. sublist v t}. set (map strip (split_bar v))"
  have "finite ?F" using finite_sublists by blast
  moreover have "Domain (definition_graph rx t) \<subseteq> ?F"
  proof
    fix a assume "a \<in> Domain (definition_graph rx t)"
    then obtain b where "a \<in> set (referenced rx t b)" by (auto simp: definition_graph_def)
    then obtain v where v: "find_assignment rx b t = Inr (Some v)"
        and a: "a \<in> set (map strip (split_bar v))"
      by (blast dest: referenced_found)
    from v rx have "sublist v t"
      by (auto simp: find_assignment_def split: if_splits dest: search_assign_sublist)
    with a show "a \<in> ?F" by blast
  qed
  ultimately show ?thesis using acyc by (rule finite_domain_acyclic_wf)
qed

lemma lookup_value_threshold_list:
  assumes "\<And>x. \<exists>n. \<forall>m\<ge>n. lookup_value m rx t x \<noteq> None"
  shows "\<exists>N. \<forall>x\<in>set xs. \<forall>m\<ge>N. lookup_value m rx t x \<noteq> None"
proof (induction xs)
  case Nil
  show ?case by simp
next
  case (Cons x xs)
  then obtain N where N: "\<forall>y\<in>set xs. \<forall>m\<ge>N. lookup_value m rx t y \<noteq> None" by blast
  from assms obtain K where K: "\<forall>m\<ge>K. lookup_value m rx t x \<noteq> None" by blast
  have "\<forall>y\<in>set (x # xs). \<forall>m\<ge>max N K. lookup_value m rx t y \<noteq> None"
    using N K by auto
  then show ?case by blast
qed

lemma or_sub_returns:
  assumes "\<And>x. \<exists>n. \<forall>m\<ge>n. lookup_value m rx t x \<noteq> None"
  shows "\<exists>N. \<forall>m\<ge>N. or_sub m rx t s \<noteq> None"
proof (induction s rule: or_chains.induct)
  case 1
  show ?case by simp
next
  case (2 c cs)
  show ?case
  proof (cases "match_or (c # cs)")
    case None
    from "2.IH"(1) [OF None] obtain N where "\<forall>m\<ge>N. or_sub m rx t cs \<noteq> None" by blast
    then have "\<forall>m\<ge>N. or_sub m rx t (c # cs) \<noteq> None"
      using None by (auto split: option.splits sum.splits)
    then show ?thesis by blast
  next
    case (Some p)
    obtain g0 rest where p: "p = (g0, rest)" by (cases p)
    from "2.IH"(2) [OF Some [unfolded p] refl]
    obtain N where N: "\<forall>m\<ge>N. or_sub m rx t rest \<noteq> None" by blast
    from lookup_value_threshold_list [OF assms, of "map strip (split_bar g0)"]
    obtain K where K: "\<forall>x\<in>set (map strip (split_bar g0)). \<forall>m\<ge>K. lookup_value m rx t x \<noteq> None"
      by blast
    have "or_sub m rx t (c # cs) \<noteq> None" if "max N K \<le> m" for m
    proof -
      have "evaluate_or_with (lookup_value m rx t) g0 \<noteq> None"
        by (rule evaluate_or_with_returns) (use K that in auto)
      then have "replace_or m rx t g0 \<noteq> None"
        by (auto simp: replace_or_def evaluate_or_def split: option.splits sum.splits)
      moreover have "or_sub m rx t rest \<noteq> None" using N that by simp
      ultimately show ?thesis using Some p by (auto split: option.splits sum.splits)
    qed
    then show ?thesis by blast
  qed
qed

text \<open>
  C9. For every text whose symbol-definition graph is acyclic, the lookup of every
  symbol comes back, with a value or an exception, at every depth from some depth
  on, and so does the whole OR pass over the text. The regex engine, a parameter
  of the model, is assumed to return parts of the text only, as \<open>re.search\<close> does.
\<close>

theorem acyclic_resolution_terminates:
  assumes "acyclic (definition_graph rx t)"
    and "\<forall>name v. rx name t = Inr (Some v) \<longrightarrow> sublist v t"
  shows "(\<exists>n. \<forall>m\<ge>n. \<exists>r. lookup_value m rx t name = Some r) \<and>
         (\<exists>n. \<forall>m\<ge>n. \<exists>r. or_pass m rx t = Some r)"
proof -
  have l: "\<exists>n. \<forall>m\<ge>n. lookup_value m rx t x \<noteq> None" for x
    by (rule wf_resolution_returns [OF definition_graph_wf [OF assms]])
  from or_sub_returns [OF l, of t] have "\<exists>n. \<forall>m\<ge>n. or_pass m rx t \<noteq> None"
    by (simp add: or_pass_def)
  with l [of name] show ?thesis by auto
qed

lemma assigned_values_mid:
  "takeWhile is_value_char (dropWhile is_blank r) \<in> set (assigned_values (a @ CHR ''='' # r))"
  by (induction a) auto

lemma match_assign_assigned: "match_assign name s = Some v \<Longrightarrow> v \<in> set (assigned_values s)"
proof -
  assume "match_assign name s = Some v"
  then obtain r c r' where r: "strip_prefix name s = Some r"
      and d: "dropWhile is_blank r = c # r'" and c: "c = CHR ''=''"
      and v: "v = takeWhile is_value_char (dropWhile is_blank r')"
    by (auto simp: match_assign_def split: option.splits list.splits if_splits)
  have "r = takeWhile is_blank r @ dropWhile is_blank r" by simp
  with d c have "r = takeWhile is_blank r @ CHR ''='' # r'" by simp
  with r have "s = (name @ takeWhile is_blank r) @ CHR ''='' # r'"
    by (simp add: strip_prefix_iff)
  then show ?thesis unfolding v by (metis assigned_values_mid)
qed

lemma search_assign_assigned: "search_assign name t = Some v \<Longrightarrow> v \<in> set (assigned_values t)"
proof (induction t)
  case Nil
  then show ?case by (auto dest: match_assign_assigned)
next
  case (Cons c cs)
  show ?case
  proof (cases "match_assign name (c # cs)")
    case None
    with Cons show ?thesis by simp
  next
    case (Some w)
    with Cons.prems have "v \<in> set (assigned_values (c # cs))"
      by (auto dest: match_assign_assigned simp del: assigned_values.simps)
    then show ?thesis .
  qed
qed

text \<open>A text with one chain: its graph is acyclic, the lookup of \<open>NK_C\<close> and the pass come back.\<close>

theorem acyclic_resolution_terminates_witness:
  "acyclic (definition_graph no_regex ''NK_A = 1,\<newline>NK_B = 2,\<newline>NK_C = NK_A | NK_B\<newline>'') \<and>
   (\<exists>n r. lookup_value n no_regex ''NK_A = 1,\<newline>NK_B = 2,\<newline>NK_C = NK_A | NK_B\<newline>'' ''NK_C'' = Some r) \<and>
   (\<exists>n r. or_pass n no_regex ''NK_A = 1,\<newline>NK_B = 2,\<newline>NK_C = NK_A | NK_B\<newline>'' = Some r)"
proof -
  let ?t = "''NK_A = 1,\<newline>NK_B = 2,\<newline>NK_C = NK_A | NK_B\<newline>''"
  let ?g = "definition_graph no_regex ?t"
  have vals: "assigned_values ?t = [''1'', ''2'', ''NK_A | NK_B'']"
    by (simp add: is_blank_def is_value_char_def)
  have leaf: "referenced no_regex ?t ''NK_A'' = []" "referenced no_regex ?t ''NK_B'' = []"
    by (simp_all add: referenced_def find_assignment_def plain_name_def is_special_def
        match_assign_def is_blank_def is_value_char_def match_val_def match_or_def)
  have edge: "a \<in> {''NK_A'', ''NK_B''} \<and> b \<notin> {''NK_A'', ''NK_B''}" if "(a, b) \<in> ?g" for a b
  proof -
    from that have a: "a \<in> set (referenced no_regex ?t b)" by (simp add: definition_graph_def)
    then obtain v where v: "find_assignment no_regex b ?t = Inr (Some v)"
        and av: "a \<in> set (map strip (split_bar v))"
      by (blast dest: referenced_found)
    from v have "search_assign b ?t = Some v"
      by (auto simp: find_assignment_def no_regex_def split: if_splits)
    then have "v \<in> set (assigned_values ?t)" by (rule search_assign_assigned)
    then have "v = ''1'' \<or> v = ''2'' \<or> v = ''NK_A | NK_B''" unfolding vals by simp
    moreover have "referenced no_regex ?t b \<noteq> []" using a by auto
    then have "match_or v \<noteq> None \<or> match_val v \<noteq> None"
      using v by (auto simp: referenced_def split: if_splits)
    ultimately have "v = ''NK_A | NK_B''" by (auto simp: match_val_def match_or_def)
    with av have "a \<in> {''NK_A'', ''NK_B''}" by (simp add: strip_def is_space_def)
    moreover have "b \<notin> {''NK_A'', ''NK_B''}" using a leaf by auto
    ultimately show ?thesis by simp
  qed
  have "?g \<subseteq> measure (\<lambda>s. if s \<in> {''NK_A'', ''NK_B''} then 0 else 1)"
    using edge by (auto simp del: insert_iff)
  then have "wf ?g" by (rule wf_subset [OF wf_measure])
  then have acyc: "acyclic ?g" by (rule wf_acyclic)
  have rx: "\<forall>name v. no_regex name ?t = Inr (Some v) \<longrightarrow> sublist v ?t"
    by (simp add: no_regex_def)
  from acyclic_resolution_terminates [OF acyc rx, of "''NK_C''"]
  obtain n k where "\<forall>m\<ge>n. \<exists>r. lookup_value m no_regex ?t ''NK_C'' = Some r"
    and "\<forall>m\<ge>k. \<exists>r. or_pass m no_regex ?t = Some r" by blast
  then have "\<exists>n r. lookup_value n no_regex ?t ''NK_C'' = Some r"
    and "\<exists>n r. or_pass n no_regex ?t = Some r" by blast+
  with acyc show ?thesis by blast
qed

section \<open>Properties of the structural rewriter\<close>









text \<open>
  C8. When the pattern of the stubbing step matches nowhere in a text, the step
  returns the text as it is. The step is a total function into texts: there is no
  error to raise.
\<close>

theorem stub_no_match_unchanged: "\<not> table_pattern_occurs t \<Longrightarrow> stub_sub t = t"
proof (induction t)
  case Nil
  show ?case by simp
next
  case (Cons c cs)
  then have "match_table (c # cs) = None" and "stub_sub cs = cs"
    by (cases "match_table (c # cs)", auto)+
  then show ?case by simp
qed

text \<open>A text without the pattern.\<close>

theorem stub_no_match_unchanged_witness:
  "\<not> table_pattern_occurs ''struct nk_rect { float x, y, w, h; };'' \<and>
   stub_sub ''struct nk_rect { float x, y, w, h; };'' = ''struct nk_rect { float x, y, w, h; };''"
proof -
  have h: "\<not> table_pattern_occurs ''struct nk_rect { float x, y, w, h; };''"
    by (simp add: match_table_def)
  show ?thesis using h stub_no_match_unchanged [OF h] by simp
qed

lemma decl_last_not_inside:
  "last draw_list_clear_decl \<notin> set (butlast draw_list_clear_decl)"
  by (simp add: draw_list_clear_decl_def)

lemma decl_nonempty: "draw_list_clear_decl \<noteq> []"
  by (simp add: draw_list_clear_decl_def)

lemma decl_no_overlap:
  assumes none: "strip_prefix draw_list_clear_decl a = None" and ne: "a \<noteq> []"
  shows "strip_prefix draw_list_clear_decl (a @ draw_list_clear_decl @ b) = None"
proof (rule ccontr)
  let ?P = draw_list_clear_decl
  assume "strip_prefix ?P (a @ ?P @ b) \<noteq> None"
  then obtain r where "strip_prefix ?P (a @ ?P @ b) = Some r" by auto
  then have eq: "a @ ?P @ b = ?P @ r" by (simp only: strip_prefix_iff)
  then obtain us where
    "(a = ?P @ us \<and> us @ ?P @ b = r) \<or> (a @ us = ?P \<and> ?P @ b = us @ r)"
    unfolding append_eq_append_conv2 by blast
  then show False
  proof
    assume "a = ?P @ us \<and> us @ ?P @ b = r"
    then have "strip_prefix ?P a = Some us" by (simp only: strip_prefix_iff)
    with none show False by simp
  next
    assume c2: "a @ us = ?P \<and> ?P @ b = us @ r"
    show False
    proof (cases "us = []")
      case True
      with c2 have "strip_prefix ?P a = Some []" by (simp add: strip_prefix_iff)
      with none show False by simp
    next
      case False
      from c2 have "length us < length ?P" using ne
        by (metis length_append length_greater_0_conv less_add_same_cancel2 add.commute)
      moreover from c2 have "take (length us) (?P @ b) = us" by simp
      ultimately have "take (length us) ?P = us" by simp
      then obtain w where w: "?P = us @ w" "w \<noteq> []"
        using \<open>length us < length ?P\<close> by (metis append_take_drop_id drop_eq_Nil not_le)
      then have "butlast ?P = us @ butlast w" by (metis butlast_append)
      then have "set us \<subseteq> set (butlast ?P)" by simp
      moreover have "last ?P = last us" using c2 False by (metis last_appendR)
      moreover have "last us \<in> set us" using False by simp
      ultimately show False using decl_last_not_inside by auto
    qed
  qed
qed

lemma remove_decl_occurrence:
  "remove_decl (a @ draw_list_clear_decl @ b) = remove_decl a @ remove_decl b"
proof (induction a rule: remove_decl.induct)
  case 1
  have "strip_prefix draw_list_clear_decl (draw_list_clear_decl @ b) = Some b"
    by (simp only: strip_prefix_iff)
  moreover obtain c cs where "draw_list_clear_decl @ b = c # cs"
    using decl_nonempty by (cases "draw_list_clear_decl @ b") auto
  ultimately show ?case by simp
next
  case (2 c cs)
  let ?occ = "draw_list_clear_decl @ b"
  show ?case
  proof (cases "strip_prefix draw_list_clear_decl (c # cs)")
    case None
    have "strip_prefix draw_list_clear_decl ((c # cs) @ ?occ) = None"
      by (rule decl_no_overlap [OF None]) simp
    then have "strip_prefix draw_list_clear_decl (c # cs @ ?occ) = None" by simp
    then show ?thesis using None 2 by simp
  next
    case (Some rest)
    then have "c # cs = draw_list_clear_decl @ rest" by (simp only: strip_prefix_iff)
    then have "(c # cs) @ ?occ = draw_list_clear_decl @ (rest @ ?occ)" by simp
    then have "strip_prefix draw_list_clear_decl ((c # cs) @ ?occ) = Some (rest @ ?occ)"
      by (simp only: strip_prefix_iff)
    then have "strip_prefix draw_list_clear_decl (c # cs @ ?occ) = Some (rest @ ?occ)" by simp
    then show ?thesis using Some 2 by simp
  qed
qed

lemma remove_decl_absent: "occurrences draw_list_clear_decl t = 0 \<Longrightarrow> remove_decl t = t"
proof (induction t)
  case Nil
  show ?case by simp
next
  case (Cons c cs)
  then have "strip_prefix draw_list_clear_decl (c # cs) = None" and "remove_decl cs = cs"
    by (simp_all split: if_splits)
  then show ?case by simp
qed

text \<open>
  C4, as amended. The rewriter deletes every occurrence of the exact text
  \<open>extern void nk_draw_list_clear(struct nk_draw_list *list);\<close>: of two
  occurrences both are deleted, and the rest of the text is rewritten on its own.
  A text in which this exact spelling does not occur is left as it is, so a
  prototype of the same function spelled in another way stays.
\<close>

theorem remove_decl_removes_every_occurrence:
  "remove_decl (a @ draw_list_clear_decl @ b @ draw_list_clear_decl @ c)
     = remove_decl a @ remove_decl b @ remove_decl c
   \<and> (occurrences draw_list_clear_decl t = 0 \<longrightarrow> remove_decl t = t)"
  using remove_decl_occurrence [of a "b @ draw_list_clear_decl @ c"] remove_decl_occurrence [of b c]
    remove_decl_absent [of t] by simp

text \<open>The prototype without the parameter name is kept.\<close>

theorem remove_decl_removes_every_occurrence_witness:
  "occurrences draw_list_clear_decl ''extern void nk_draw_list_clear(struct nk_draw_list*);'' = 0 \<and>
   remove_decl ''extern void nk_draw_list_clear(struct nk_draw_list*);''
     = ''extern void nk_draw_list_clear(struct nk_draw_list*);''"
proof -
  have h: "occurrences draw_list_clear_decl ''extern void nk_draw_list_clear(struct nk_draw_list*);'' = 0"
    by (simp add: draw_list_clear_decl_def)
  show ?thesis
    using h remove_decl_removes_every_occurrence [of "[]" "[]" "[]" "''extern void nk_draw_list_clear(struct nk_draw_list*);''"]
    by blast
qed

text \<open>
  C4 as stated fails: of two identical prototypes in the spelling of the pattern,
  none is left in the output.
\<close>

theorem duplicate_prototypes_both_removed:
  "remove_decl (draw_list_clear_decl @ ''\<newline>'' @ draw_list_clear_decl) = ''\<newline>'' \<and>
   occurrences draw_list_clear_decl
     (remove_decl (draw_list_clear_decl @ ''\<newline>'' @ draw_list_clear_decl)) \<noteq> 1"
  by (simp add: draw_list_clear_decl_def)

section \<open>Properties of the command line\<close>

lemma parse_args_extend:
  "i \<le> length argv \<Longrightarrow> parse_args i argv f = Run f' \<Longrightarrow>
   parse_args i (argv @ [''--header'']) f = Exit 1 ''--header <filename>''"
proof (induction i argv f rule: parse_args.induct)
  case (1 i argv f)
  show ?case
  proof (cases "i < length argv")
    case False
    with "1.prems" have "i = length argv" by simp
    then show ?thesis by (subst parse_args.simps) simp
  next
    case True
    let ?arg = "argv ! i"
    from True "1.prems"(2) have nh: "?arg \<noteq> ''-h''" "?arg \<noteq> ''--help''"
      by (subst (asm) parse_args.simps, simp add: Let_def split: if_splits)+
    show ?thesis
    proof (cases "?arg = ''--header''")
      case h: True
      from True h "1.prems"(2) have ne: "i + 1 \<noteq> length argv"
        by (subst (asm) parse_args.simps) (auto simp add: Let_def split: if_splits)
      with True have lt: "i + 1 < length argv" by simp
      from True h ne "1.prems"(2) have "parse_args (i + 1 + 1) argv (argv ! (i + 1)) = Run f'"
        by (subst (asm) parse_args.simps) (simp add: Let_def)
      with "1.IH"(1) [OF True refl _ h ne] nh lt
      have "parse_args (i + 1 + 1) (argv @ [''--header'']) (argv ! (i + 1)) = Exit 1 ''--header <filename>''"
        by simp
      then show ?thesis using True h lt
        by (subst parse_args.simps) (simp add: Let_def nth_append)
    next
      case nhd: False
      from True nh nhd "1.prems"(2) have "parse_args (i + 1) argv f = Run f'"
        by (subst (asm) parse_args.simps) (simp add: Let_def)
      with "1.IH"(2) [OF True refl _ nhd] nh True
      have "parse_args (i + 1) (argv @ [''--header'']) f = Exit 1 ''--header <filename>''"
        by simp
      then show ?thesis using True nh nhd
        by (subst parse_args.simps) (simp add: Let_def nth_append)
    qed
  qed
qed

text \<open>
  C10, as amended. When the arguments before it are read without an exit, a final
  \<open>--header\<close> with no file name after it makes the program print the hint
  \<open>--header <filename>\<close> and exit with status 1; no pipeline stage is run.
\<close>

theorem dangling_header_flag:
  "argv \<noteq> [] \<Longrightarrow> main_args argv = Run f \<Longrightarrow>
   main_args (argv @ [''--header'']) = Exit 1 ''--header <filename>''"
  unfolding main_args_def by (rule parse_args_extend) (auto simp: Suc_le_eq)

text \<open>A command line that is read without an exit, and the same with \<open>--header\<close> added.\<close>

theorem dangling_header_flag_witness:
  "main_args [''nuklear-cffi.py'', ''--header'', ''a.h''] = Run ''a.h'' \<and>
   main_args ([''nuklear-cffi.py'', ''--header'', ''a.h''] @ [''--header'']) = Exit 1 ''--header <filename>''"
proof -
  have r: "main_args [''nuklear-cffi.py'', ''--header'', ''a.h''] = Run ''a.h''"
    by (simp add: main_args_def parse_args.simps)
  show ?thesis using r dangling_header_flag [OF _ r] by simp
qed

text \<open>
  C10 as stated fails: with \<open>-h\<close> before it, a final \<open>--header\<close> is never reached;
  the program prints its documentation and exits with status 0.
\<close>

theorem help_before_dangling_header:
  "main_args [''nuklear-cffi.py'', ''-h'', ''--header''] = Exit 0 usage_doc"
  by (simp add: main_args_def parse_args.simps)

end
